theory Spec2Isabelle
  imports Main
begin

section \<open>The keyring rewriter \<open>fix_keyring.py\<close>\<close>

text \<open>
  The script is Python 2: a \<open>str\<close> is a sequence of 8-bit characters, which is what a HOL
  \<open>string\<close> is (a \<open>char\<close> has exactly 256 values). Every field of a key, the keyring
  header and the file contents are therefore modelled as \<open>string\<close>.
\<close>

type_synonym bytes = string

subsection \<open>Errors and progress messages\<close>

text \<open>
  \<open>RuntimeError\<close> is raised by \<open>main\<close> itself, \<open>StructError\<close> is \<open>struct.error\<close>
  (raised by \<open>struct.pack\<close> on a number that does not fit the format), \<open>IOError\<close> is raised
  by \<open>file.write\<close> when the device refuses the bytes, \<open>OverflowError\<close> and \<open>MemoryError\<close>
  are raised by \<open>file.read\<close> on a size it cannot serve.
\<close>

datatype error = RuntimeError string | StructError | IOError | OverflowError | MemoryError

text \<open>One constructor for each \<open>print\<close> of the script, with the values it formats.\<close>

datatype msg =
    Keyring_file_version bytes
  | Loaded_Key bytes bytes bytes
  | Wrote_new_keyring_header
  | Fixing_percona_binlog_key
  | Unversioned_percona_binlog_key
  | Wrote_Key bytes bytes bytes

subsection \<open>File objects\<close>

text \<open>
  The input file object: the contents of the file and the current position.
  \<open>file_read mem n\<close> is \<open>infile.read(n)\<close>. The interpreter converts \<open>n\<close> to a signed
  64-bit size, which raises \<open>OverflowError\<close> from \<open>2 ^ 63\<close> on, and allocates a buffer of \<open>n\<close>
  bytes before it reads, which raises \<open>MemoryError\<close> when the buffer cannot be had; in both
  cases nothing is read. The parameter \<open>mem\<close> is the memory the interpreter has for such a
  buffer beyond the 40 bytes of the header of a key, which an interpreter that runs the script
  always has. Otherwise \<open>read\<close> returns at most \<open>n\<close> bytes, fewer when the file ends first,
  and advances the position by what it returned. \<open>file_tell\<close> is \<open>infile.tell()\<close>. Read
  errors of the operating system are outside the model, and no statement below depends on
  which of the two exceptions a refused size raises.
\<close>

record istream =
  data :: bytes
  pos :: nat

definition file_read :: "nat \<Rightarrow> nat \<Rightarrow> istream \<Rightarrow> error + bytes \<times> istream" where
  "file_read mem n infile =
     (if 2 ^ 63 \<le> n then Inl OverflowError
      else if 40 + mem < n then Inl MemoryError
      else (let buf = take n (drop (pos infile) (data infile))
            in Inr (buf, infile\<lparr>pos := pos infile + length buf\<rparr>)))"

text \<open>
  A call that may raise, followed by the statements that use its result: an exception of
  the call skips them.
\<close>

definition and_then :: "error + 'a \<Rightarrow> ('a \<Rightarrow> error + 'b) \<Rightarrow> error + 'b" where
  "and_then r f = (case r of Inl e \<Rightarrow> Inl e | Inr x \<Rightarrow> f x)"

definition file_tell :: "istream \<Rightarrow> nat" where
  "file_tell infile = pos infile"

text \<open>
  The output file object, opened with mode \<open>wb\<close> on a path that does not exist: the bytes
  written so far, and \<open>room\<close>, the number of bytes the device still accepts. A write that
  does not fit raises \<open>IOError\<close> and writes nothing; the bytes written before stay in the
  file. The position of a file that is only appended to is its length.
\<close>

record ostream =
  written :: bytes
  room :: nat

definition file_write :: "bytes \<Rightarrow> ostream \<Rightarrow> error option \<times> ostream" where
  "file_write buf outfile =
     (if length buf \<le> room outfile
      then (None, outfile\<lparr>written := written outfile @ buf,
                          room := room outfile - length buf\<rparr>)
      else (Some IOError, outfile))"

definition out_tell :: "ostream \<Rightarrow> nat" where
  "out_tell outfile = length (written outfile)"

text \<open>
  Two statements in sequence: an exception of the first skips the second, and the state
  reached so far is kept.
\<close>

definition seq ::
  "(ostream \<Rightarrow> error option \<times> ostream) \<Rightarrow> (ostream \<Rightarrow> error option \<times> ostream)
     \<Rightarrow> ostream \<Rightarrow> error option \<times> ostream" where
  "seq f g outfile =
     (case f outfile of
        (Some e, outfile') \<Rightarrow> (Some e, outfile')
      | (None, outfile') \<Rightarrow> g outfile')"

subsection \<open>The \<open>struct\<close> formats \<open>Q\<close> and \<open>x\<close>\<close>

text \<open>
  \<open>Q\<close> is an unsigned 64-bit integer in the byte order of the machine, which is a parameter
  of the model. \<open>struct.pack\<close> raises \<open>struct.error\<close> on a number outside the range,
  \<open>struct.unpack\<close> raises it on a buffer of the wrong length.
\<close>

datatype byteorder = LittleEndian | BigEndian

fun le_bytes :: "nat \<Rightarrow> nat \<Rightarrow> bytes" where
  "le_bytes 0 n = []"
| "le_bytes (Suc k) n = char_of (n mod 256) # le_bytes k (n div 256)"

fun le_nat :: "bytes \<Rightarrow> nat" where
  "le_nat [] = 0"
| "le_nat (c # cs) = of_char c + 256 * le_nat cs"

definition calcsize_Q :: nat where
  "calcsize_Q = 8"

definition calcsize_QQQQQ :: nat where
  "calcsize_QQQQQ = 40"

definition native :: "byteorder \<Rightarrow> bytes \<Rightarrow> bytes" where
  "native bo buf = (case bo of LittleEndian \<Rightarrow> buf | BigEndian \<Rightarrow> rev buf)"

definition in_range_Q :: "nat \<Rightarrow> bool" where
  "in_range_Q n = (n < 2 ^ 64)"

definition bytes_Q :: "byteorder \<Rightarrow> nat \<Rightarrow> bytes" where
  "bytes_Q bo n = native bo (le_bytes calcsize_Q n)"

definition unpack_Q :: "byteorder \<Rightarrow> bytes \<Rightarrow> nat" where
  "unpack_Q bo buf = le_nat (native bo buf)"

definition pack_QQQQQ ::
  "byteorder \<Rightarrow> nat \<Rightarrow> nat \<Rightarrow> nat \<Rightarrow> nat \<Rightarrow> nat \<Rightarrow> error + bytes" where
  "pack_QQQQQ bo a b c d e =
     (if in_range_Q a \<and> in_range_Q b \<and> in_range_Q c \<and> in_range_Q d \<and> in_range_Q e
      then Inr (bytes_Q bo a @ bytes_Q bo b @ bytes_Q bo c @ bytes_Q bo d @ bytes_Q bo e)
      else Inl StructError)"

definition unpack_QQQQQ ::
  "byteorder \<Rightarrow> bytes \<Rightarrow> (nat \<times> nat \<times> nat \<times> nat \<times> nat) option" where
  "unpack_QQQQQ bo buf =
     (if length buf \<noteq> calcsize_QQQQQ then None
      else Some (unpack_Q bo (take 8 buf),
                 unpack_Q bo (take 8 (drop 8 buf)),
                 unpack_Q bo (take 8 (drop 16 buf)),
                 unpack_Q bo (take 8 (drop 24 buf)),
                 unpack_Q bo (take 8 (drop 32 buf))))"

definition pack_x :: "nat \<Rightarrow> bytes" where
  "pack_x padding = replicate padding (CHR 0x00)"

subsection \<open>The class \<open>Key\<close>\<close>

text \<open>
  A key object has the four attributes that \<open>__init__\<close> sets. The class attribute
  \<open>pod_size = None\<close> is replaced by the method of the same name, so no size is stored.
\<close>

record Key =
  key_id :: bytes
  key_type :: bytes
  user_id :: bytes
  key :: bytes

definition pod_size :: "Key \<Rightarrow> nat" where
  "pod_size self =
     4 * calcsize_Q + length (key_id self) + length (key_type self)
       + length (user_id self) + length (key self) + calcsize_Q"

definition write_padding :: "ostream \<Rightarrow> error option \<times> ostream" where
  "write_padding outfile =
     (let padding = (8 - (out_tell outfile mod 8)) mod 8
      in file_write (pack_x padding) outfile)"

definition Key_write :: "byteorder \<Rightarrow> Key \<Rightarrow> ostream \<Rightarrow> error option \<times> ostream" where
  "Key_write bo self outfile =
     (case pack_QQQQQ bo (pod_size self) (length (key_id self)) (length (key_type self))
             (length (user_id self)) (length (key self)) of
        Inl e \<Rightarrow> (Some e, outfile)
      | Inr header \<Rightarrow>
          seq (file_write header)
         (seq (file_write (key_id self))
         (seq (file_write (key_type self))
         (seq (file_write (user_id self))
         (seq (file_write (key self))
              write_padding)))) outfile)"

definition read_padding :: "nat \<Rightarrow> istream \<Rightarrow> error + bytes \<times> istream" where
  "read_padding mem infile =
     (let padding = (8 - (file_tell infile mod 8)) mod 8
      in file_read mem padding infile)"

text \<open>
  \<open>Key.read\<close> returns \<open>False\<close> (here \<open>None\<close>) when \<open>struct.unpack\<close> raises, and a key
  object otherwise; in both cases the file object has moved. Only \<open>struct.error\<close> is
  caught: an exception of a \<open>read\<close> leaves \<open>Key.read\<close>.
\<close>

definition Key_read :: "nat \<Rightarrow> byteorder \<Rightarrow> istream \<Rightarrow> error + Key option \<times> istream" where
  "Key_read mem bo infile =
     and_then (file_read mem calcsize_QQQQQ infile) (\<lambda>(buf, s0).
       case unpack_QQQQQ bo buf of
         None \<Rightarrow> Inr (None, s0)
       | Some (key_pod_size, key_id_len, key_type_len, user_id_len, key_len) \<Rightarrow>
           and_then (file_read mem key_id_len s0) (\<lambda>(key_id', s1).
           and_then (file_read mem key_type_len s1) (\<lambda>(key_type', s2).
           and_then (file_read mem user_id_len s2) (\<lambda>(user_id', s3).
           and_then (file_read mem key_len s3) (\<lambda>(key', s4).
           and_then (read_padding mem s4) (\<lambda>(pad, s5).
             Inr (Some \<lparr>key_id = key_id', key_type = key_type',
                        user_id = user_id', key = key'\<rparr>, s5)))))))"

subsection \<open>The keyring header\<close>

text \<open>
  The loop of \<open>read_keyring_header\<close> reads one byte at a time until the byte read is a
  colon. At the end of the file \<open>read(1)\<close> returns the empty string, which is not a colon,
  so the loop goes on: the result \<open>None\<close> stands for a call that never returns.
\<close>

partial_function (option) header_loop ::
  "nat \<Rightarrow> bytes \<Rightarrow> bytes \<Rightarrow> istream \<Rightarrow> (error + bytes \<times> istream) option" where
  "header_loop mem buf header infile =
     (if buf \<noteq> '':''
      then (case file_read mem 1 infile of
              Inl e \<Rightarrow> Some (Inl e)
            | Inr (buf', infile') \<Rightarrow> header_loop mem buf' (header @ buf') infile')
      else Some (Inr (header, infile)))"

definition read_keyring_header ::
  "nat \<Rightarrow> istream \<Rightarrow> (error + bytes \<times> msg list \<times> istream) option" where
  "read_keyring_header mem infile =
     (case header_loop mem [] [] infile of
        None \<Rightarrow> None
      | Some (Inl e) \<Rightarrow> Some (Inl e)
      | Some (Inr (header, s)) \<Rightarrow>
          Some (and_then (file_read mem 3 s) (\<lambda>(version_string, s').
                  Inr (header @ version_string, [Keyring_file_version version_string], s'))))"

subsection \<open>\<open>main\<close>\<close>

text \<open>
  The user shown in a progress message. The script tests \<open>key.user_id is ''\<close>; the empty
  string is a single object of the interpreter, so the test is that of emptiness.
\<close>

definition user_text :: "Key \<Rightarrow> bytes" where
  "user_text k = (if user_id k = [] then ''SYSTEM'' else user_id k)"

text \<open>
  The loading loop \<open>while True: key = Key.read(rh) ...\<close>. It returns the exception
  that ended it, if any, the keys loaded, the messages printed and the input file object. It
  ends because a call of \<open>Key.read\<close> that returns a key has consumed the 40 bytes of its
  header.
\<close>

function load_keys ::
  "nat \<Rightarrow> byteorder \<Rightarrow> istream \<Rightarrow> Key list \<Rightarrow> msg list
     \<Rightarrow> error option \<times> Key list \<times> msg list \<times> istream" where
  "load_keys mem bo rh keys log =
     (case Key_read mem bo rh of
        Inl e \<Rightarrow> (Some e, keys, log, rh)
      | Inr (None, rh') \<Rightarrow> (None, keys, log, rh')
      | Inr (Some k, rh') \<Rightarrow>
          load_keys mem bo rh' (keys @ [k])
            (log @ [Loaded_Key (key_id k) (key_type k) (user_text k)]))"
  by pat_completeness auto
termination
proof (relation "measure (\<lambda>(mem, bo, rh, keys, log). length (data rh) - pos rh)")
  show "wf (measure (\<lambda>(mem, bo, rh, keys, log). length (data rh) - pos rh))"
    by simp
next
  fix mem :: nat and bo :: byteorder and rh rh' :: istream and keys :: "Key list" and log :: "msg list"
    and b :: "Key option \<times> istream" and x :: "Key option" and k :: Key
  assume "Key_read mem bo rh = Inr b" and "(x, rh') = b" and "x = Some k"
  then have kr: "Key_read mem bo rh = Inr (Some k, rh')"
    by simp
  have moves: "data s' = data s \<and> pos s \<le> pos s'" if "file_read mem n s = Inr (b, s')"
    for n s b s'
    using that by (auto simp: file_read_def Let_def split: if_splits)
  obtain buf s0 where b: "file_read mem calcsize_QQQQQ rh = Inr (buf, s0)"
    using kr by (cases "file_read mem calcsize_QQQQQ rh") (auto simp: Key_read_def and_then_def)
  with kr have l: "length buf = 40"
    by (cases "length buf = 40")
      (simp_all add: Key_read_def and_then_def unpack_QQQQQ_def calcsize_QQQQQ_def)
  from b l have s0: "data s0 = data rh" "pos s0 = pos rh + 40" "pos rh + 40 \<le> length (data rh)"
    by (auto simp: file_read_def Let_def calcsize_QQQQQ_def split: if_splits)
  obtain t a c d e where u: "unpack_QQQQQ bo buf = Some (t, a, c, d, e)"
    using l by (simp add: unpack_QQQQQ_def calcsize_QQQQQ_def)
  from kr b u obtain f1 s1 where r1: "file_read mem a s0 = Inr (f1, s1)"
    by (cases "file_read mem a s0") (auto simp: Key_read_def and_then_def)
  from kr b u r1 obtain f2 s2 where r2: "file_read mem c s1 = Inr (f2, s2)"
    by (cases "file_read mem c s1") (auto simp: Key_read_def and_then_def)
  from kr b u r1 r2 obtain f3 s3 where r3: "file_read mem d s2 = Inr (f3, s3)"
    by (cases "file_read mem d s2") (auto simp: Key_read_def and_then_def)
  from kr b u r1 r2 r3 obtain f4 s4 where r4: "file_read mem e s3 = Inr (f4, s4)"
    by (cases "file_read mem e s3") (auto simp: Key_read_def and_then_def)
  from kr b u r1 r2 r3 r4 obtain f5 s5 where r5: "read_padding mem s4 = Inr (f5, s5)"
    by (cases "read_padding mem s4") (auto simp: Key_read_def and_then_def)
  from kr b u r1 r2 r3 r4 r5 have "rh' = s5"
    by (simp add: Key_read_def and_then_def)
  moreover have "data s5 = data rh \<and> pos s0 \<le> pos s5"
    using moves[OF r1] moves[OF r2] moves[OF r3] moves[OF r4]
      moves[OF r5[unfolded read_padding_def Let_def]] s0 by simp
  ultimately have "data rh' = data rh" and "pos rh + 40 \<le> pos rh'"
    using s0 by simp_all
  with s0(3) show "((mem, bo, rh', keys @ [k],
          log @ [Loaded_Key (key_id k) (key_type k) (user_text k)]),
         (mem, bo, rh, keys, log))
        \<in> measure (\<lambda>(mem, bo, rh, keys, log). length (data rh) - pos rh)"
    by simp
qed

declare load_keys.simps [simp del]

text \<open>
  The body of the writing loop before \<open>key.write(wh)\<close>: the key object as the loop
  leaves it, and what is printed.
\<close>

definition fix_key :: "bool \<Rightarrow> Key \<Rightarrow> Key \<times> msg list" where
  "fix_key fix k =
     (if key_id k = ''percona_binlog'' \<and> fix
      then (k\<lparr>key_id := ''percona_binlog:0''\<rparr>, [Fixing_percona_binlog_key])
      else if key_id k = ''percona_binlog''
      then (k, [Unversioned_percona_binlog_key])
      else (k, []))"

text \<open>
  The writing loop \<open>for key in keys: ...\<close>. It returns the exception that ended it, if
  any, the list \<open>keys\<close> as the loop leaves it (the key objects are changed in place), the
  messages printed and the output file object.
\<close>

fun write_keys ::
  "byteorder \<Rightarrow> bool \<Rightarrow> Key list \<Rightarrow> ostream
     \<Rightarrow> error option \<times> Key list \<times> msg list \<times> ostream" where
  "write_keys bo fix [] wh = (None, [], [], wh)"
| "write_keys bo fix (k # keys) wh =
     (let (k', msgs) = fix_key fix k
      in case Key_write bo k' wh of
           (Some e, wh') \<Rightarrow> (Some e, k' # keys, msgs, wh')
         | (None, wh') \<Rightarrow>
             (let (r, keys', msgs', wh'') = write_keys bo fix keys wh'
              in (r, k' # keys',
                  msgs @ [Wrote_Key (key_id k') (key_type k') (user_text k')] @ msgs',
                  wh'')))"

text \<open>
  The writing phase of \<open>main\<close>: the header, the keys, the literal \<open>EOF\<close>.
\<close>

definition writing_phase ::
  "byteorder \<Rightarrow> bool \<Rightarrow> bytes \<Rightarrow> Key list \<Rightarrow> ostream
     \<Rightarrow> error option \<times> Key list \<times> msg list \<times> ostream" where
  "writing_phase bo fix header keys wh =
     (case file_write header wh of
        (Some e, wh1) \<Rightarrow> (Some e, keys, [], wh1)
      | (None, wh1) \<Rightarrow>
          (case write_keys bo fix keys wh1 of
             (Some e, keys', msgs, wh2) \<Rightarrow>
               (Some e, keys', Wrote_new_keyring_header # msgs, wh2)
           | (None, keys', msgs, wh2) \<Rightarrow>
               (let (r, wh3) = file_write ''EOF'' wh2
                in (r, keys', Wrote_new_keyring_header # msgs, wh3))))"

text \<open>
  The file system is a map from paths to the contents of regular files; \<open>space\<close> is the
  number of bytes the device accepts for the output file. \<open>main\<close> returns the exception
  it ends with, if any, the messages printed and the file system it leaves behind; \<open>None\<close>
  is a run that never returns. The output file is created, empty, by \<open>open\<close> before
  anything is read, and every write goes to it: a run that an exception ends while the keys
  are read leaves it empty. The option \<open>fix\<close> of the script is the
  field \<open>fix_opt\<close>, \<open>fix\<close> being a keyword of the proof language.
\<close>

record options =
  infile :: string
  outfile :: string
  fix_opt :: bool

type_synonym filesystem = "string \<rightharpoonup> bytes"

definition main ::
  "nat \<Rightarrow> byteorder \<Rightarrow> nat \<Rightarrow> options \<Rightarrow> filesystem
     \<Rightarrow> (error option \<times> msg list \<times> filesystem) option" where
  "main mem bo space opts fs =
     (case fs (infile opts) of
        None \<Rightarrow>
          Some (Some (RuntimeError (''Input file '' @ infile opts @ '' does not exist?'')),
                [], fs)
      | Some contents \<Rightarrow>
          if outfile opts \<in> dom fs
          then Some (Some (RuntimeError
                       (''Output file '' @ outfile opts @ '' already exists.'')), [], fs)
          else
            (let rh = \<lparr>data = contents, pos = 0\<rparr>;
                 wh = \<lparr>written = [], room = space\<rparr>
             in case read_keyring_header mem rh of
                  None \<Rightarrow> None
                | Some (Inl e) \<Rightarrow> Some (Some e, [], fs(outfile opts \<mapsto> written wh))
                | Some (Inr (header, log1, rh1)) \<Rightarrow>
                    (case load_keys mem bo rh1 [] [] of
                       (Some e, keys, log2, rh2) \<Rightarrow>
                         Some (Some e, log1 @ log2, fs(outfile opts \<mapsto> written wh))
                     | (None, keys, log2, rh2) \<Rightarrow>
                         (let (r, keys', log3, wh') =
                                writing_phase bo (fix_opt opts) header keys wh
                          in Some (r, log1 @ log2 @ log3,
                                   fs(outfile opts \<mapsto> written wh'))))))"

subsection \<open>The bytes of a key on disk\<close>

text \<open>
  Names for what the theorems below say \<open>Key.write\<close> produces: the padding computed from
  an absolute offset, the bytes of a key without padding (the five lengths, then the four
  fields), and the bytes of a key written from absolute offset \<open>off\<close>.
\<close>

definition padding_at :: "nat \<Rightarrow> nat" where
  "padding_at off = (8 - (off mod 8)) mod 8"

definition key_bytes :: "byteorder \<Rightarrow> Key \<Rightarrow> bytes" where
  "key_bytes bo k =
     bytes_Q bo (pod_size k) @ bytes_Q bo (length (key_id k)) @ bytes_Q bo (length (key_type k))
       @ bytes_Q bo (length (user_id k)) @ bytes_Q bo (length (key k))
       @ key_id k @ key_type k @ user_id k @ key k"

definition encoded :: "byteorder \<Rightarrow> Key \<Rightarrow> nat \<Rightarrow> bytes" where
  "encoded bo k off = key_bytes bo k @ pack_x (padding_at (off + pod_size k))"

text \<open>
  The sizes that \<open>read\<close> serves: below \<open>2 ^ 63\<close> and within the memory of the interpreter.
  Every string that the interpreter holds has such a length.
\<close>

definition readable :: "nat \<Rightarrow> nat \<Rightarrow> bool" where
  "readable mem n = (n < 2 ^ 63 \<and> n \<le> 40 + mem)"

definition readable_key :: "nat \<Rightarrow> Key \<Rightarrow> bool" where
  "readable_key mem k =
     (readable mem (length (key_id k)) \<and> readable mem (length (key_type k))
      \<and> readable mem (length (user_id k)) \<and> readable mem (length (key k)))"

text \<open>The bytes of a list of keys written one after the other from offset \<open>off\<close>.\<close>

fun encoded_keys :: "byteorder \<Rightarrow> Key list \<Rightarrow> nat \<Rightarrow> bytes" where
  "encoded_keys bo [] off = []"
| "encoded_keys bo (k # ks) off =
     encoded bo k off @ encoded_keys bo ks (off + length (encoded bo k off))"

subsection \<open>Sample inputs\<close>

text \<open>
  A keyring whose only key is cut short: the 40 bytes after the keyring header declare a
  total size of 45 and a \<open>key_id\<close> of 5 bytes (and three empty fields), and only the two
  bytes \<open>ab\<close> follow.
\<close>

definition truncated_header :: bytes where
  "truncated_header =
     [CHR 0x2D, CHR 0x00, CHR 0x00, CHR 0x00, CHR 0x00, CHR 0x00, CHR 0x00, CHR 0x00,
      CHR 0x05, CHR 0x00, CHR 0x00, CHR 0x00, CHR 0x00, CHR 0x00, CHR 0x00, CHR 0x00,
      CHR 0x00, CHR 0x00, CHR 0x00, CHR 0x00, CHR 0x00, CHR 0x00, CHR 0x00, CHR 0x00,
      CHR 0x00, CHR 0x00, CHR 0x00, CHR 0x00, CHR 0x00, CHR 0x00, CHR 0x00, CHR 0x00,
      CHR 0x00, CHR 0x00, CHR 0x00, CHR 0x00, CHR 0x00, CHR 0x00, CHR 0x00, CHR 0x00]"

definition truncated_keyring :: bytes where
  "truncated_keyring = ''Keyring file version:1.0'' @ truncated_header @ ''ab''"

text \<open>
  A keyring whose only key declares a \<open>key_id\<close> of \<open>2 ^ 63\<close> bytes, as a little-endian
  machine reads the second of the five lengths, and is followed by two bytes.
\<close>

definition oversized_header :: bytes where
  "oversized_header =
     [CHR 0x00, CHR 0x00, CHR 0x00, CHR 0x00, CHR 0x00, CHR 0x00, CHR 0x00, CHR 0x00,
      CHR 0x00, CHR 0x00, CHR 0x00, CHR 0x00, CHR 0x00, CHR 0x00, CHR 0x00, CHR 0x80,
      CHR 0x00, CHR 0x00, CHR 0x00, CHR 0x00, CHR 0x00, CHR 0x00, CHR 0x00, CHR 0x00,
      CHR 0x00, CHR 0x00, CHR 0x00, CHR 0x00, CHR 0x00, CHR 0x00, CHR 0x00, CHR 0x00,
      CHR 0x00, CHR 0x00, CHR 0x00, CHR 0x00, CHR 0x00, CHR 0x00, CHR 0x00, CHR 0x00]"

definition oversized_keyring :: bytes where
  "oversized_keyring = ''Keyring file version:1.0'' @ oversized_header @ ''ab''"

text \<open>
  The keyring of the scenario in the specification: the header \<open>Keyring file version:1.0\<close>,
  one system key named \<open>percona_binlog\<close> of type \<open>AES\<close> with a payload of four bytes, and the
  sentinel. The file is given byte by byte, as a little-endian machine writes it: the five
  lengths (61, 14, 3, 0, 4), the fields, three bytes of padding up to offset 88, \<open>EOF\<close>.
\<close>

definition scenario_key :: Key where
  "scenario_key = \<lparr>key_id = ''percona_binlog'', key_type = ''AES'', user_id = [],
                    key = [CHR 0x01, CHR 0x02, CHR 0x03, CHR 0x04]\<rparr>"

definition scenario_keyring :: bytes where
  "scenario_keyring =
     ''Keyring file version:1.0''
     @ [CHR 0x3D, CHR 0x00, CHR 0x00, CHR 0x00, CHR 0x00, CHR 0x00, CHR 0x00, CHR 0x00,
        CHR 0x0E, CHR 0x00, CHR 0x00, CHR 0x00, CHR 0x00, CHR 0x00, CHR 0x00, CHR 0x00,
        CHR 0x03, CHR 0x00, CHR 0x00, CHR 0x00, CHR 0x00, CHR 0x00, CHR 0x00, CHR 0x00,
        CHR 0x00, CHR 0x00, CHR 0x00, CHR 0x00, CHR 0x00, CHR 0x00, CHR 0x00, CHR 0x00,
        CHR 0x04, CHR 0x00, CHR 0x00, CHR 0x00, CHR 0x00, CHR 0x00, CHR 0x00, CHR 0x00]
     @ ''percona_binlog'' @ ''AES'' @ [CHR 0x01, CHR 0x02, CHR 0x03, CHR 0x04]
     @ [CHR 0x00, CHR 0x00, CHR 0x00]
     @ ''EOF''"

definition scenario_options :: options where
  "scenario_options = \<lparr>infile = ''keyring'', outfile = ''keyring.new'', fix_opt = True\<rparr>"

text \<open>
  A keyring whose only key declares a wrong total size: 999, for a \<open>key_id\<close> of three
  bytes and three empty fields, which make 43.
\<close>

definition stale_header :: bytes where
  "stale_header =
     [CHR 0xE7, CHR 0x03, CHR 0x00, CHR 0x00, CHR 0x00, CHR 0x00, CHR 0x00, CHR 0x00,
      CHR 0x03, CHR 0x00, CHR 0x00, CHR 0x00, CHR 0x00, CHR 0x00, CHR 0x00, CHR 0x00,
      CHR 0x00, CHR 0x00, CHR 0x00, CHR 0x00, CHR 0x00, CHR 0x00, CHR 0x00, CHR 0x00,
      CHR 0x00, CHR 0x00, CHR 0x00, CHR 0x00, CHR 0x00, CHR 0x00, CHR 0x00, CHR 0x00,
      CHR 0x00, CHR 0x00, CHR 0x00, CHR 0x00, CHR 0x00, CHR 0x00, CHR 0x00, CHR 0x00]"

definition stale_keyring :: bytes where
  "stale_keyring =
     ''Keyring file version:1.0'' @ stale_header @ ''abc'' @ pack_x 5 @ ''EOF''"

section \<open>Properties\<close>

subsection \<open>Packing and unpacking\<close>

lemma length_le_bytes: "length (le_bytes k n) = k"
  by (induction k arbitrary: n) simp_all

lemma le_nat_le_bytes: "le_nat (le_bytes k n) = n mod 256 ^ k"
proof (induction k arbitrary: n)
  case 0
  show ?case by simp
next
  case (Suc k)
  have "le_nat (le_bytes (Suc k) n) = n mod 256 + 256 * ((n div 256) mod 256 ^ k)"
    by (simp add: Suc)
  also have "\<dots> = n mod 256 ^ Suc k"
    by (simp add: mod_mult2_eq)
  finally show ?case .
qed

lemma length_bytes_Q: "length (bytes_Q bo n) = 8"
  by (cases bo) (simp_all add: bytes_Q_def native_def calcsize_Q_def length_le_bytes)

lemma unpack_bytes_Q: "in_range_Q n \<Longrightarrow> unpack_Q bo (bytes_Q bo n) = n"
  by (cases bo)
     (simp_all add: unpack_Q_def bytes_Q_def native_def calcsize_Q_def le_nat_le_bytes
        in_range_Q_def)

lemma unpack_pack_QQQQQ:
  assumes "pack_QQQQQ bo a b c d e = Inr header"
  shows "length header = 40 \<and> unpack_QQQQQ bo header = Some (a, b, c, d, e)"
proof -
  from assms have r: "in_range_Q a" "in_range_Q b" "in_range_Q c" "in_range_Q d" "in_range_Q e"
    and h: "header = bytes_Q bo a @ bytes_Q bo b @ bytes_Q bo c @ bytes_Q bo d @ bytes_Q bo e"
    by (auto simp: pack_QQQQQ_def split: if_splits)
  have l: "length header = 40"
    by (simp add: h length_bytes_Q)
  show ?thesis
    by (simp add: l unpack_QQQQQ_def calcsize_QQQQQ_def)
       (simp add: h length_bytes_Q unpack_bytes_Q r)
qed

subsection \<open>Writing and reading one key\<close>

lemma pod_size_eq: "pod_size k = 40 + length (key_id k) + length (key_type k) + length (user_id k) + length (key k)"
  by (simp add: pod_size_def calcsize_Q_def)

lemma length_key_bytes: "length (key_bytes bo k) = pod_size k"
  by (simp add: key_bytes_def length_bytes_Q pod_size_eq)

lemma length_encoded: "length (encoded bo k off) = pod_size k + padding_at (off + pod_size k)"
  by (simp add: encoded_def length_key_bytes pack_x_def)

lemma in_range_fields:
  assumes "in_range_Q (pod_size k)"
  shows "in_range_Q (length (key_id k))" "in_range_Q (length (key_type k))"
    "in_range_Q (length (user_id k))" "in_range_Q (length (key k))"
  using assms by (simp_all add: in_range_Q_def pod_size_eq)

lemma pack_key_header:
  "pack_QQQQQ bo (pod_size k) (length (key_id k)) (length (key_type k)) (length (user_id k)) (length (key k))
   = (if in_range_Q (pod_size k)
      then Inr (bytes_Q bo (pod_size k) @ bytes_Q bo (length (key_id k)) @ bytes_Q bo (length (key_type k))
       @ bytes_Q bo (length (user_id k)) @ bytes_Q bo (length (key k)))
      else Inl StructError)"
  by (simp add: pack_QQQQQ_def in_range_fields)

lemma seq_file_write:
  "seq (file_write buf) g out =
     (if length buf \<le> room out
      then g (out\<lparr>written := written out @ buf, room := room out - length buf\<rparr>)
      else (Some IOError, out))"
  by (simp add: seq_def file_write_def)

lemma write_padding_eq:
  "write_padding out = file_write (pack_x (padding_at (length (written out)))) out"
  by (simp add: write_padding_def padding_at_def out_tell_def)

lemma Key_write_ok:
  assumes "in_range_Q (pod_size k)"
    and "length (encoded bo k (out_tell out)) \<le> room out"
  shows "Key_write bo k out =
           (None, out\<lparr>written := written out @ encoded bo k (out_tell out),
                       room := room out - length (encoded bo k (out_tell out))\<rparr>)"
proof -
  have 1: "Key_write bo k out =
      seq (file_write (bytes_Q bo (pod_size k) @ bytes_Q bo (length (key_id k))
              @ bytes_Q bo (length (key_type k)) @ bytes_Q bo (length (user_id k))
              @ bytes_Q bo (length (key k))))
     (seq (file_write (key_id k))
     (seq (file_write (key_type k))
     (seq (file_write (user_id k))
     (seq (file_write (key k)) write_padding)))) out"
    by (simp add: Key_write_def pack_key_header assms(1))
  define p where "p = padding_at (length (written out) + pod_size k)"
  have p: "padding_at (length (written out) + (40 + (length (key_id k) + (length (key_type k)
     + (length (user_id k) + length (key k)))))) = p"
    by (simp add: p_def pod_size_eq add.assoc)
  have fits: "40 + length (key_id k) + length (key_type k) + length (user_id k)
      + length (key k) + p \<le> room out"
    using assms(2) by (simp add: length_encoded out_tell_def pod_size_eq p_def)
  show ?thesis
    unfolding 1 using fits
    by (simp add: seq_file_write write_padding_eq file_write_def
        length_bytes_Q encoded_def key_bytes_def pack_x_def pod_size_eq out_tell_def
        add.assoc p) arith
qed


lemma readable_small: "n \<le> 40 \<Longrightarrow> readable mem n"
  by (simp add: readable_def)

lemma padding_at_le: "padding_at off \<le> 40"
proof -
  have "padding_at off < 8"
    by (simp add: padding_at_def)
  then show ?thesis by simp
qed

lemma file_read_readable:
  assumes "readable mem n"
  shows "file_read mem n s =
           Inr (take n (drop (pos s) (data s)),
                s\<lparr>pos := pos s + length (take n (drop (pos s) (data s)))\<rparr>)"
  using assms by (simp add: file_read_def readable_def Let_def not_le not_less)

lemma file_read_refused:
  assumes "\<not> readable mem n"
  shows "file_read mem n s = Inl (if 2 ^ 63 \<le> n then OverflowError else MemoryError)"
  using assms by (auto simp: file_read_def readable_def)

lemma file_read_chunk:
  assumes "data s = pre @ buf @ rest" and "pos s = length pre" and "readable mem (length buf)"
  shows "file_read mem (length buf) s = Inr (buf, s\<lparr>pos := length pre + length buf\<rparr>)"
  using assms by (simp add: file_read_readable)

lemma Key_read_eof:
  assumes "length (data s) - pos s < 40"
  shows "Key_read mem bo s = Inr (None, s\<lparr>pos := pos s + (length (data s) - pos s)\<rparr>)"
  using assms
  by (simp add: Key_read_def and_then_def file_read_readable readable_small unpack_QQQQQ_def
      calcsize_QQQQQ_def min_def)

lemma Key_read_encoded:
  assumes d: "data s = pre @ encoded bo k (length pre) @ rest"
    and p: "pos s = length pre"
    and r: "in_range_Q (pod_size k)"
    and m: "readable_key mem k"
  shows "Key_read mem bo s
           = Inr (Some k, s\<lparr>pos := length pre + length (encoded bo k (length pre))\<rparr>)"
proof -
  from m have m1: "readable mem (length (key_id k))" and m2: "readable mem (length (key_type k))"
    and m3: "readable mem (length (user_id k))" and m4: "readable mem (length (key k))"
    by (simp_all add: readable_key_def)
  define header where "header = bytes_Q bo (pod_size k) @ bytes_Q bo (length (key_id k))
      @ bytes_Q bo (length (key_type k)) @ bytes_Q bo (length (user_id k))
      @ bytes_Q bo (length (key k))"
  define pad where "pad = pack_x (padding_at (length pre + pod_size k))"
  have ph: "pack_QQQQQ bo (pod_size k) (length (key_id k)) (length (key_type k))
      (length (user_id k)) (length (key k)) = Inr header"
    by (simp add: pack_key_header r header_def)
  have lh: "length header = 40"
    and uh: "unpack_QQQQQ bo header = Some (pod_size k, length (key_id k), length (key_type k),
      length (user_id k), length (key k))"
    using unpack_pack_QQQQQ[OF ph] by simp_all
  have d': "data s = pre @ header @ key_id k @ key_type k @ user_id k @ key k @ pad @ rest"
    by (simp add: d encoded_def key_bytes_def header_def pad_def)
  define s0 where "s0 = s\<lparr>pos := length pre + 40\<rparr>"
  define s1 where "s1 = s\<lparr>pos := length pre + 40 + length (key_id k)\<rparr>"
  define s2 where "s2 = s\<lparr>pos := length pre + 40 + length (key_id k) + length (key_type k)\<rparr>"
  define s3 where "s3 = s\<lparr>pos := length pre + 40 + length (key_id k) + length (key_type k)
       + length (user_id k)\<rparr>"
  define s4 where "s4 = s\<lparr>pos := length pre + pod_size k\<rparr>"
  define s5 where "s5 = s\<lparr>pos := length pre + pod_size k + length pad\<rparr>"
  have r0: "file_read mem calcsize_QQQQQ s = Inr (header, s0)"
    using file_read_chunk[of s pre header "key_id k @ key_type k @ user_id k @ key k @ pad @ rest" mem]
    by (simp add: d' p lh s0_def calcsize_QQQQQ_def readable_small)
  have r1: "file_read mem (length (key_id k)) s0 = Inr (key_id k, s1)"
    using file_read_chunk[of s0 "pre @ header" "key_id k" "key_type k @ user_id k @ key k @ pad @ rest" mem]
    by (simp add: d' lh s0_def s1_def m1)
  have r2: "file_read mem (length (key_type k)) s1 = Inr (key_type k, s2)"
    using file_read_chunk[of s1 "pre @ header @ key_id k" "key_type k" "user_id k @ key k @ pad @ rest" mem]
    by (simp add: d' lh s1_def s2_def add.assoc m2)
  have r3: "file_read mem (length (user_id k)) s2 = Inr (user_id k, s3)"
    using file_read_chunk[of s2 "pre @ header @ key_id k @ key_type k" "user_id k" "key k @ pad @ rest" mem]
    by (simp add: d' lh s2_def s3_def add.assoc m3)
  have r4: "file_read mem (length (key k)) s3 = Inr (key k, s4)"
    using file_read_chunk[of s3 "pre @ header @ key_id k @ key_type k @ user_id k" "key k" "pad @ rest" mem]
    by (simp add: d' lh s3_def s4_def pod_size_eq add.assoc m4)
  have lp: "length pad = padding_at (file_tell s4)"
    by (simp add: pad_def pack_x_def file_tell_def s4_def)
  have rp: "readable mem (length pad)"
    unfolding lp by (rule readable_small) (rule padding_at_le)
  have r5: "read_padding mem s4 = Inr (pad, s5)"
    using file_read_chunk[of s4 "pre @ header @ key_id k @ key_type k @ user_id k @ key k" pad rest mem]
    unfolding read_padding_def Let_def padding_at_def[symmetric] lp[symmetric]
    by (simp add: d' lh s4_def s5_def pod_size_eq add.assoc rp)
  have "Key_read mem bo s = Inr (Some \<lparr>key_id = key_id k, key_type = key_type k,
      user_id = user_id k, key = key k\<rparr>, s5)"
    by (simp add: Key_read_def and_then_def r0 uh r1 r2 r3 r4 r5)
  then show ?thesis
    by (simp add: s5_def length_encoded pad_def pack_x_def add.assoc)
qed

lemma Key_write_StructError:
  "\<not> in_range_Q (pod_size k) \<Longrightarrow> Key_write bo k out = (Some StructError, out)"
  by (simp add: Key_write_def pack_key_header)

lemma Key_write_IOError:
  assumes "in_range_Q (pod_size k)"
    and "\<not> length (encoded bo k (out_tell out)) \<le> room out"
  shows "fst (Key_write bo k out) = Some IOError"
proof -
  have 1: "Key_write bo k out =
      seq (file_write (bytes_Q bo (pod_size k) @ bytes_Q bo (length (key_id k))
              @ bytes_Q bo (length (key_type k)) @ bytes_Q bo (length (user_id k))
              @ bytes_Q bo (length (key k))))
     (seq (file_write (key_id k))
     (seq (file_write (key_type k))
     (seq (file_write (user_id k))
     (seq (file_write (key k)) write_padding)))) out"
    by (simp add: Key_write_def pack_key_header assms(1))
  define p where "p = padding_at (length (written out) + pod_size k)"
  have p: "padding_at (length (written out) + (40 + (length (key_id k) + (length (key_type k)
     + (length (user_id k) + length (key k)))))) = p"
    by (simp add: p_def pod_size_eq add.assoc)
  have fits: "\<not> 40 + length (key_id k) + length (key_type k) + length (user_id k)
      + length (key k) + p \<le> room out"
    using assms(2) by (simp add: length_encoded out_tell_def pod_size_eq p_def)
  show ?thesis
    unfolding 1 using fits
    by (simp add: seq_file_write write_padding_eq file_write_def
        length_bytes_Q pack_x_def add.assoc p) arith
qed

lemma Key_write_None_iff:
  "fst (Key_write bo k out) = None \<longleftrightarrow>
     in_range_Q (pod_size k) \<and> length (encoded bo k (out_tell out)) \<le> room out"
  using Key_write_ok[of k bo out] Key_write_StructError[of k bo out] Key_write_IOError[of k bo out]
  by (cases "in_range_Q (pod_size k)"; cases "length (encoded bo k (out_tell out)) \<le> room out") simp_all

lemma Key_write_None:
  assumes "Key_write bo k out = (None, out')"
  shows "in_range_Q (pod_size k)"
    and "length (encoded bo k (out_tell out)) \<le> room out"
    and "out' = out\<lparr>written := written out @ encoded bo k (out_tell out),
                     room := room out - length (encoded bo k (out_tell out))\<rparr>"
proof -
  from assms have "fst (Key_write bo k out) = None" by simp
  then show r: "in_range_Q (pod_size k)"
    and f: "length (encoded bo k (out_tell out)) \<le> room out"
    by (simp_all add: Key_write_None_iff)
  from Key_write_ok[OF r f] assms
  show "out' = out\<lparr>written := written out @ encoded bo k (out_tell out),
                     room := room out - length (encoded bo k (out_tell out))\<rparr>"
    by simp
qed

lemma padding_aligns: "(off + padding_at off) mod 8 = 0"
proof -
  have "(off + padding_at off) mod 8 = (off mod 8 + padding_at off) mod 8"
    by (simp add: mod_add_left_eq)
  also have "\<dots> = 0"
  proof (cases "off mod 8 = 0")
    case True
    then show ?thesis by (simp add: padding_at_def)
  next
    case False
    have "off mod 8 < 8" by simp
    with False have "padding_at off = 8 - off mod 8"
      by (simp add: padding_at_def)
    with \<open>off mod 8 < 8\<close> show ?thesis by simp
  qed
  finally show ?thesis .
qed

lemma encoded_aligned: "(off + length (encoded bo k off)) mod 8 = 0"
  using padding_aligns[of "off + pod_size k"] by (simp add: length_encoded add.assoc)

lemma Key_write_aligned:
  assumes "Key_write bo k out = (None, out')"
  shows "out_tell out' mod 8 = 0"
  using Key_write_None(3)[OF assms] encoded_aligned[of "out_tell out" bo k]
  by (simp add: out_tell_def)

subsection \<open>The writing loop\<close>

lemma write_keys_None:
  assumes "write_keys bo fix keys wh = (None, keys', msgs, wh')"
  shows "keys' = map (\<lambda>k. fst (fix_key fix k)) keys
       \<and> written wh' = written wh @ encoded_keys bo keys' (out_tell wh)
       \<and> msgs = concat (map (\<lambda>k. snd (fix_key fix k) @
            [Wrote_Key (key_id (fst (fix_key fix k))) (key_type (fst (fix_key fix k)))
               (user_text (fst (fix_key fix k)))]) keys)"
  using assms
proof (induction keys arbitrary: wh keys' msgs wh')
  case Nil
  then show ?case by simp
next
  case (Cons k keys)
  obtain k' m where fk: "fix_key fix k = (k', m)" by force
  obtain r1 wh1 where w1: "Key_write bo k' wh = (r1, wh1)" by force
  with Cons.prems fk have r1: "r1 = None"
    by (cases r1) simp_all
  obtain r2 ks2 ms2 wh2 where w2: "write_keys bo fix keys wh1 = (r2, ks2, ms2, wh2)"
    by (cases "write_keys bo fix keys wh1") auto
  from Cons.prems fk w1 r1 w2 have e: "r2 = None" "keys' = k' # ks2"
    "msgs = m @ [Wrote_Key (key_id k') (key_type k') (user_text k')] @ ms2" "wh' = wh2"
    by simp_all
  note ih = Cons.IH[OF w2[unfolded e(1)]]
  have wr: "written wh1 = written wh @ encoded bo k' (out_tell wh)"
    using Key_write_None(3)[OF w1[unfolded r1]] by simp
  then have t: "out_tell wh1 = out_tell wh + length (encoded bo k' (out_tell wh))"
    by (simp add: out_tell_def)
  from ih have a: "ks2 = map (\<lambda>k. fst (fix_key fix k)) keys"
    and b: "written wh2 = written wh1 @ encoded_keys bo ks2 (out_tell wh1)"
    and c: "ms2 = concat (map (\<lambda>k. snd (fix_key fix k) @
            [Wrote_Key (key_id (fst (fix_key fix k))) (key_type (fst (fix_key fix k)))
               (user_text (fst (fix_key fix k)))]) keys)"
    by simp_all
  have 1: "keys' = map (\<lambda>k. fst (fix_key fix k)) (k # keys)"
    by (simp add: e(2) fk a)
  have 2: "written wh' = written wh @ encoded_keys bo keys' (out_tell wh)"
    unfolding e(2) e(4) b wr t by simp
  have 3: "msgs = concat (map (\<lambda>k. snd (fix_key fix k) @
            [Wrote_Key (key_id (fst (fix_key fix k))) (key_type (fst (fix_key fix k)))
               (user_text (fst (fix_key fix k)))]) (k # keys))"
    unfolding e(3) c by (simp add: fk)
  from 1 2 3 show ?case by blast
qed

lemma write_keys_ok:
  assumes "list_all (\<lambda>k. in_range_Q (pod_size k)) (map (\<lambda>k. fst (fix_key fix k)) keys)"
    and "length (encoded_keys bo (map (\<lambda>k. fst (fix_key fix k)) keys) (out_tell wh)) \<le> room wh"
  shows "write_keys bo fix keys wh =
     (None, map (\<lambda>k. fst (fix_key fix k)) keys,
      concat (map (\<lambda>k. snd (fix_key fix k) @
            [Wrote_Key (key_id (fst (fix_key fix k))) (key_type (fst (fix_key fix k)))
               (user_text (fst (fix_key fix k)))]) keys),
      wh\<lparr>written := written wh @ encoded_keys bo (map (\<lambda>k. fst (fix_key fix k)) keys) (out_tell wh),
         room := room wh - length (encoded_keys bo (map (\<lambda>k. fst (fix_key fix k)) keys) (out_tell wh))\<rparr>)"
  using assms
proof (induction keys arbitrary: wh)
  case Nil
  then show ?case by simp
next
  case (Cons k keys)
  obtain k' m where fk: "fix_key fix k = (k', m)" by force
  define wh1 where "wh1 = wh\<lparr>written := written wh @ encoded bo k' (out_tell wh),
                     room := room wh - length (encoded bo k' (out_tell wh))\<rparr>"
  have r: "in_range_Q (pod_size k')"
    using Cons.prems(1) by (simp add: fk)
  have f: "length (encoded bo k' (out_tell wh)) \<le> room wh"
    using Cons.prems(2) by (simp add: fk)
  have w1: "Key_write bo k' wh = (None, wh1)"
    unfolding wh1_def by (rule Key_write_ok[OF r f])
  have t: "out_tell wh1 = out_tell wh + length (encoded bo k' (out_tell wh))"
    by (simp add: wh1_def out_tell_def)
  have p1: "list_all (\<lambda>k. in_range_Q (pod_size k)) (map (\<lambda>k. fst (fix_key fix k)) keys)"
    using Cons.prems(1) by simp
  have p2: "length (encoded_keys bo (map (\<lambda>k. fst (fix_key fix k)) keys) (out_tell wh1)) \<le> room wh1"
    using Cons.prems(2) by (simp add: fk t) (simp add: wh1_def)
  note ih = Cons.IH[OF p1 p2]
  show ?case
    by (simp add: fk w1 ih t) (simp add: wh1_def)
qed


lemma write_keys_None_conds:
  assumes "write_keys bo fix keys wh = (None, keys', msgs, wh')"
  shows "list_all (\<lambda>k. in_range_Q (pod_size k)) (map (\<lambda>k. fst (fix_key fix k)) keys)
       \<and> length (encoded_keys bo (map (\<lambda>k. fst (fix_key fix k)) keys) (out_tell wh)) \<le> room wh"
  using assms
proof (induction keys arbitrary: wh keys' msgs wh')
  case Nil
  then show ?case by simp
next
  case (Cons k keys)
  obtain k' m where fk: "fix_key fix k = (k', m)" by force
  obtain r1 wh1 where w1: "Key_write bo k' wh = (r1, wh1)" by force
  with Cons.prems fk have r1: "r1 = None"
    by (cases r1) simp_all
  obtain r2 ks2 ms2 wh2 where w2: "write_keys bo fix keys wh1 = (r2, ks2, ms2, wh2)"
    by (cases "write_keys bo fix keys wh1") auto
  from Cons.prems fk w1 r1 w2 have e: "r2 = None"
    by simp
  note ih = Cons.IH[OF w2[unfolded e]]
  note kw = Key_write_None[OF w1[unfolded r1]]
  have t: "out_tell wh1 = out_tell wh + length (encoded bo k' (out_tell wh))"
    and rm: "room wh1 = room wh - length (encoded bo k' (out_tell wh))"
    using kw(3) by (simp_all add: out_tell_def)
  have 1: "list_all (\<lambda>k. in_range_Q (pod_size k)) (map (\<lambda>k. fst (fix_key fix k)) (k # keys))"
    using ih kw(1) by (simp add: fk)
  have "length (encoded_keys bo (map (\<lambda>k. fst (fix_key fix k)) keys) (out_tell wh1)) \<le> room wh1"
    using ih by simp
  with kw(2) have 2: "length (encoded_keys bo (map (\<lambda>k. fst (fix_key fix k)) (k # keys)) (out_tell wh))
      \<le> room wh"
    by (simp add: fk t rm)
  from 1 2 show ?case by blast
qed

lemma encoded_keys_append:
  "encoded_keys bo (xs @ ys) off =
     encoded_keys bo xs off @ encoded_keys bo ys (off + length (encoded_keys bo xs off))"
  by (induction xs arbitrary: off) (simp_all add: add.assoc)

lemma encoded_keys_take_Suc:
  assumes "n < length ks"
  shows "encoded_keys bo (take (Suc n) ks) off =
     encoded_keys bo (take n ks) off
       @ encoded bo (ks ! n) (off + length (encoded_keys bo (take n ks) off))"
  by (simp add: take_Suc_conv_app_nth[OF assms] encoded_keys_append)

lemma encoded_keys_take_le:
  "length (encoded_keys bo (take n ks) off) \<le> length (encoded_keys bo ks off)"
proof -
  have "encoded_keys bo ks off = encoded_keys bo (take n ks @ drop n ks) off"
    by simp
  also have "\<dots> = encoded_keys bo (take n ks) off
      @ encoded_keys bo (drop n ks) (off + length (encoded_keys bo (take n ks) off))"
    by (rule encoded_keys_append)
  finally show ?thesis by simp
qed

lemma encoded_keys_aligned:
  "ks \<noteq> [] \<Longrightarrow> (off + length (encoded_keys bo ks off)) mod 8 = 0"
proof (induction ks arbitrary: off)
  case Nil
  then show ?case by simp
next
  case (Cons k ks)
  show ?case
  proof (cases "ks = []")
    case True
    then show ?thesis by (simp add: encoded_aligned)
  next
    case False
    from Cons.IH[OF False, of "off + length (encoded bo k off)"]
    show ?thesis by (simp add: add.assoc)
  qed
qed

subsection \<open>C1: decoding what was encoded\<close>

text \<open>
  Claim C1. Let \<open>r\<close> be any key whose size fits the format \<open>Q\<close> (a size of
  \<open>2 ^ 64\<close> or more makes \<open>struct.pack\<close> raise, and no Python string is that long), written
  to an output file with room for it, and let the length of each of its four fields be one
  that \<open>read\<close> serves, as the length of every string that the interpreter holds is. Then
  \<open>Key.write\<close> succeeds, and \<open>Key.read\<close> on a file that holds the bytes written (followed
  by anything), started at the absolute offset at which \<open>Key.write\<close> began, returns exactly
  \<open>r\<close> and stops right after the padding. The fields are arbitrary byte strings; they may be
  empty. The offset need not even be a multiple of 8, since both sides compute the padding from
  the same absolute position.
\<close>

theorem decode_encode_roundtrip:
  assumes "in_range_Q (pod_size r)"
    and "pod_size r + padding_at (out_tell wh + pod_size r) \<le> room wh"
    and "readable_key mem r"
  shows "\<exists>wh'. Key_write bo r wh = (None, wh') \<and>
           Key_read mem bo \<lparr>data = written wh' @ rest, pos = out_tell wh\<rparr>
             = Inr (Some r, \<lparr>data = written wh' @ rest, pos = out_tell wh'\<rparr>)"
proof -
  define wh' where "wh' = wh\<lparr>written := written wh @ encoded bo r (out_tell wh),
                       room := room wh - length (encoded bo r (out_tell wh))\<rparr>"
  have w: "Key_write bo r wh = (None, wh')"
    unfolding wh'_def using assms by (intro Key_write_ok) (simp_all add: length_encoded)
  have "Key_read mem bo \<lparr>data = written wh' @ rest, pos = out_tell wh\<rparr>
      = Inr (Some r, \<lparr>data = written wh' @ rest, pos = out_tell wh\<rparr>
            \<lparr>pos := length (written wh) + length (encoded bo r (length (written wh)))\<rparr>)"
    by (rule Key_read_encoded) (simp_all add: wh'_def out_tell_def assms(1) assms(3))
  then have "Key_read mem bo \<lparr>data = written wh' @ rest, pos = out_tell wh\<rparr>
      = Inr (Some r, \<lparr>data = written wh' @ rest, pos = out_tell wh'\<rparr>)"
    by (simp add: wh'_def out_tell_def)
  with w show ?thesis by blast
qed

theorem decode_encode_roundtrip_witness:
  "in_range_Q (pod_size \<lparr>key_id = ''percona_binlog'', key_type = ''AES'', user_id = [], key = []\<rparr>)
   \<and> pod_size \<lparr>key_id = ''percona_binlog'', key_type = ''AES'', user_id = [], key = []\<rparr>
       + padding_at (out_tell \<lparr>written = ''Keyring file version:1.0'', room = 100\<rparr>
           + pod_size \<lparr>key_id = ''percona_binlog'', key_type = ''AES'', user_id = [], key = []\<rparr>)
       \<le> room \<lparr>written = ''Keyring file version:1.0'', room = 100\<rparr>
   \<and> readable_key 0 \<lparr>key_id = ''percona_binlog'', key_type = ''AES'', user_id = [], key = []\<rparr>
   \<and> (\<exists>wh'. Key_write LittleEndian
           \<lparr>key_id = ''percona_binlog'', key_type = ''AES'', user_id = [], key = []\<rparr>
           \<lparr>written = ''Keyring file version:1.0'', room = 100\<rparr> = (None, wh') \<and>
         Key_read 0 LittleEndian \<lparr>data = written wh' @ ''EOF'',
             pos = out_tell \<lparr>written = ''Keyring file version:1.0'', room = 100\<rparr>\<rparr>
           = Inr (Some \<lparr>key_id = ''percona_binlog'', key_type = ''AES'', user_id = [], key = []\<rparr>,
              \<lparr>data = written wh' @ ''EOF'', pos = out_tell wh'\<rparr>))"
  using decode_encode_roundtrip [of "\<lparr>key_id = ''percona_binlog'', key_type = ''AES'', user_id = [], key = []\<rparr>"
      "\<lparr>written = ''Keyring file version:1.0'', room = 100\<rparr>" 0 LittleEndian "''EOF''"]
  by (simp add: in_range_Q_def pod_size_def calcsize_Q_def padding_at_def out_tell_def
      readable_key_def readable_def)

lemma fix_key_fields:
  "key_type (fst (fix_key fix k)) = key_type k"
  "user_id (fst (fix_key fix k)) = user_id k"
  "key (fst (fix_key fix k)) = key k"
  "key_id (fst (fix_key fix k)) =
     (if fix \<and> key_id k = ''percona_binlog'' then ''percona_binlog:0'' else key_id k)"
  by (simp_all add: fix_key_def)

lemma fix_key_False: "fst (fix_key False k) = k"
  by (simp add: fix_key_def)

lemma fix_key_msgs:
  "snd (fix_key fix k) =
     (if key_id k = ''percona_binlog''
      then (if fix then [Fixing_percona_binlog_key] else [Unversioned_percona_binlog_key])
      else [])"
  by (simp add: fix_key_def)

lemma write_keys_shape:
  assumes "write_keys bo fix keys wh = (r, keys', msgs, wh')"
  shows "\<exists>n \<le> length keys.
           keys' = map (\<lambda>k. fst (fix_key fix k)) (take n keys) @ drop n keys"
  using assms
proof (induction keys arbitrary: wh r keys' msgs wh')
  case Nil
  then show ?case by simp
next
  case (Cons k keys)
  obtain k' m where fk: "fix_key fix k = (k', m)" by force
  obtain r1 wh1 where w1: "Key_write bo k' wh = (r1, wh1)" by force
  show ?case
  proof (cases r1)
    case (Some err)
    with Cons.prems fk w1 have "keys' = k' # keys"
      by simp
    then have "keys' = map (\<lambda>k. fst (fix_key fix k)) (take 1 (k # keys)) @ drop 1 (k # keys)"
      by (simp add: fk)
    then show ?thesis
      by (intro exI[of _ 1]) simp
  next
    case None
    obtain r2 ks2 ms2 wh2 where w2: "write_keys bo fix keys wh1 = (r2, ks2, ms2, wh2)"
      by (cases "write_keys bo fix keys wh1") auto
    from Cons.prems fk w1 None w2 have e: "keys' = k' # ks2"
      by simp
    from Cons.IH[OF w2] obtain n where n: "n \<le> length keys"
      and ks2: "ks2 = map (\<lambda>k. fst (fix_key fix k)) (take n keys) @ drop n keys"
      by blast
    have "keys' = map (\<lambda>k. fst (fix_key fix k)) (take (Suc n) (k # keys)) @ drop (Suc n) (k # keys)"
      by (simp add: e ks2 fk)
    with n show ?thesis
      by (intro exI[of _ "Suc n"]) simp
  qed
qed

subsection \<open>C2: the rename in the writing loop\<close>

text \<open>
  Claim C2. However the writing loop ends, the list of keys it leaves has the length and the
  order of the input; the key at each position has the \<open>key_type\<close>, \<open>user_id\<close> and \<open>key\<close>
  of the input key, and its \<open>key_id\<close> is either that of the input key or, with the fix flag
  set and an input \<open>key_id\<close> of \<open>percona_binlog\<close>, \<open>percona_binlog:0\<close>. Without the fix flag
  no key changes. When the loop runs to its end (no write raised), the \<open>key_id\<close> is
  \<open>percona_binlog:0\<close> exactly at the positions where the fix flag is set and the input
  \<open>key_id\<close> is \<open>percona_binlog\<close>; the advisory about an un-versioned key is printed exactly
  when the fix flag is not set and some key matches, and the loop goes on after it; and the
  bytes written are those of the keys as the loop leaves them.
\<close>

theorem rename_transform:
  assumes "write_keys bo fix keys wh = (r, keys', msgs, wh')"
  shows "length keys' = length keys
       \<and> (\<forall>i < length keys.
             key_type (keys' ! i) = key_type (keys ! i)
           \<and> user_id (keys' ! i) = user_id (keys ! i)
           \<and> key (keys' ! i) = key (keys ! i)
           \<and> (key_id (keys' ! i) = key_id (keys ! i)
               \<or> fix \<and> key_id (keys ! i) = ''percona_binlog''
                   \<and> key_id (keys' ! i) = ''percona_binlog:0''))
       \<and> (\<not> fix \<longrightarrow> keys' = keys)
       \<and> (r = None \<longrightarrow>
             (\<forall>i < length keys.
                key_id (keys' ! i) =
                  (if fix \<and> key_id (keys ! i) = ''percona_binlog''
                   then ''percona_binlog:0'' else key_id (keys ! i)))
           \<and> (Unversioned_percona_binlog_key \<in> set msgs \<longleftrightarrow>
                 \<not> fix \<and> (\<exists>k \<in> set keys. key_id k = ''percona_binlog''))
           \<and> written wh' = written wh @ encoded_keys bo keys' (out_tell wh))"
proof -
  from write_keys_shape[OF assms] obtain n where n: "n \<le> length keys"
    and ks: "keys' = map (\<lambda>k. fst (fix_key fix k)) (take n keys) @ drop n keys"
    by blast
  have 1: "length keys' = length keys"
    using n by (simp add: ks)
  have nth: "keys' ! i = (if i < n then fst (fix_key fix (keys ! i)) else keys ! i)"
    if "i < length keys" for i
    using that n by (simp add: ks nth_append)
  have 2: "\<forall>i < length keys.
             key_type (keys' ! i) = key_type (keys ! i)
           \<and> user_id (keys' ! i) = user_id (keys ! i)
           \<and> key (keys' ! i) = key (keys ! i)
           \<and> (key_id (keys' ! i) = key_id (keys ! i)
               \<or> fix \<and> key_id (keys ! i) = ''percona_binlog''
                   \<and> key_id (keys' ! i) = ''percona_binlog:0'')"
    by (simp add: nth fix_key_fields)
  have 3: "\<not> fix \<longrightarrow> keys' = keys"
    by (simp add: ks fix_key_False map_idI)
  have 4: "(\<forall>i < length keys.
                key_id (keys' ! i) =
                  (if fix \<and> key_id (keys ! i) = ''percona_binlog''
                   then ''percona_binlog:0'' else key_id (keys ! i)))
           \<and> (Unversioned_percona_binlog_key \<in> set msgs \<longleftrightarrow>
                 \<not> fix \<and> (\<exists>k \<in> set keys. key_id k = ''percona_binlog''))
           \<and> written wh' = written wh @ encoded_keys bo keys' (out_tell wh)"
    if "r = None"
  proof -
    note wk = write_keys_None[OF assms[unfolded that]]
    from wk have km: "keys' = map (\<lambda>k. fst (fix_key fix k)) keys"
      and wr: "written wh' = written wh @ encoded_keys bo keys' (out_tell wh)"
      and ms: "msgs = concat (map (\<lambda>k. snd (fix_key fix k) @
            [Wrote_Key (key_id (fst (fix_key fix k))) (key_type (fst (fix_key fix k)))
               (user_text (fst (fix_key fix k)))]) keys)"
      by simp_all
    have a: "\<forall>i < length keys.
                key_id (keys' ! i) =
                  (if fix \<and> key_id (keys ! i) = ''percona_binlog''
                   then ''percona_binlog:0'' else key_id (keys ! i))"
      by (simp add: km fix_key_fields)
    have b: "Unversioned_percona_binlog_key \<in> set msgs \<longleftrightarrow>
                 \<not> fix \<and> (\<exists>k \<in> set keys. key_id k = ''percona_binlog'')"
      unfolding ms by (auto simp: fix_key_msgs split: if_splits)
    from a b wr show ?thesis
      by blast
  qed
  from 1 2 3 4 show ?thesis
    by blast
qed

theorem rename_transform_witness:
  "(\<exists>keys' msgs wh'.
      write_keys LittleEndian True
       [\<lparr>key_id = ''percona_binlog'', key_type = ''AES'', user_id = [], key = ''abcd''\<rparr>,
        \<lparr>key_id = ''other'', key_type = ''AES'', user_id = ''root@localhost'', key = ''k''\<rparr>]
       \<lparr>written = ''Keyring file version:1.0'', room = 1000\<rparr> = (None, keys', msgs, wh')
      \<and> length keys' = 2
      \<and> key_id (keys' ! 0) = ''percona_binlog:0'' \<and> key_type (keys' ! 0) = ''AES''
      \<and> user_id (keys' ! 0) = [] \<and> key (keys' ! 0) = ''abcd''
      \<and> key_id (keys' ! 1) = ''other''
      \<and> Unversioned_percona_binlog_key \<notin> set msgs)
   \<and> (\<exists>keys' msgs wh'.
      write_keys LittleEndian False
       [\<lparr>key_id = ''percona_binlog'', key_type = ''AES'', user_id = [], key = ''abcd''\<rparr>,
        \<lparr>key_id = ''other'', key_type = ''AES'', user_id = ''root@localhost'', key = ''k''\<rparr>]
       \<lparr>written = ''Keyring file version:1.0'', room = 1000\<rparr> = (None, keys', msgs, wh')
      \<and> keys' = [\<lparr>key_id = ''percona_binlog'', key_type = ''AES'', user_id = [], key = ''abcd''\<rparr>,
        \<lparr>key_id = ''other'', key_type = ''AES'', user_id = ''root@localhost'', key = ''k''\<rparr>]
      \<and> Unversioned_percona_binlog_key \<in> set msgs)"
proof -
  let ?keys = "[\<lparr>key_id = ''percona_binlog'', key_type = ''AES'', user_id = [], key = ''abcd''\<rparr>,
        \<lparr>key_id = ''other'', key_type = ''AES'', user_id = ''root@localhost'', key = ''k''\<rparr>]"
  let ?wh = "\<lparr>written = ''Keyring file version:1.0'', room = 1000\<rparr>"
  obtain keys1 msgs1 wh1 where
    h1: "write_keys LittleEndian True ?keys ?wh = (None, keys1, msgs1, wh1)"
    using write_keys_ok [of True ?keys LittleEndian ?wh]
    by (simp add: fix_key_def in_range_Q_def pod_size_eq length_encoded padding_at_def
        out_tell_def)
  obtain keys2 msgs2 wh2 where
    h2: "write_keys LittleEndian False ?keys ?wh = (None, keys2, msgs2, wh2)"
    using write_keys_ok [of False ?keys LittleEndian ?wh]
    by (simp add: fix_key_def in_range_Q_def pod_size_eq length_encoded padding_at_def
        out_tell_def)
  note t1 = rename_transform [OF h1]
  note t2 = rename_transform [OF h2]
  from t1 have l: "length keys1 = 2"
    by simp
  from t1 have o: "\<forall>i < length ?keys.
             key_type (keys1 ! i) = key_type (?keys ! i)
           \<and> user_id (keys1 ! i) = user_id (?keys ! i)
           \<and> key (keys1 ! i) = key (?keys ! i)"
    by blast
  from t1 have i: "\<forall>i < length ?keys.
                key_id (keys1 ! i) =
                  (if True \<and> key_id (?keys ! i) = ''percona_binlog''
                   then ''percona_binlog:0'' else key_id (?keys ! i))"
    by blast
  from t1 have m: "Unversioned_percona_binlog_key \<notin> set msgs1"
    by blast
  from o[rule_format, of 0] have o0: "key_type (keys1 ! 0) = ''AES''"
    "user_id (keys1 ! 0) = []" "key (keys1 ! 0) = ''abcd''"
    by simp_all
  from i[rule_format, of 0] have i0: "key_id (keys1 ! 0) = ''percona_binlog:0''"
    by simp
  from i[rule_format, of 1] have i1: "key_id (keys1 ! 1) = ''other''"
    by simp
  from t2 have k2: "keys2 = ?keys"
    by blast
  from t2 have m2: "Unversioned_percona_binlog_key \<in> set msgs2"
    by simp
  from h1 l i0 o0 i1 m have
    "\<exists>keys' msgs wh'.
      write_keys LittleEndian True ?keys ?wh = (None, keys', msgs, wh')
      \<and> length keys' = 2
      \<and> key_id (keys' ! 0) = ''percona_binlog:0'' \<and> key_type (keys' ! 0) = ''AES''
      \<and> user_id (keys' ! 0) = [] \<and> key (keys' ! 0) = ''abcd''
      \<and> key_id (keys' ! 1) = ''other''
      \<and> Unversioned_percona_binlog_key \<notin> set msgs"
    by blast
  moreover from h2 k2 m2 have
    "\<exists>keys' msgs wh'.
      write_keys LittleEndian False ?keys ?wh = (None, keys', msgs, wh')
      \<and> keys' = ?keys
      \<and> Unversioned_percona_binlog_key \<in> set msgs"
    by blast
  ultimately show ?thesis
    by blast
qed

subsection \<open>C10: every matching key is renamed\<close>



subsection \<open>C4: the offset after each key\<close>

text \<open>
  Claim C4. In a writing loop that runs to its end, take the key at any position \<open>n\<close>. It is
  written by \<open>Key.write\<close> from the state \<open>wh1\<close> that the loop reaches after the \<open>n\<close> keys
  before it; what is appended is the key's bytes and then \<open>(8 - (p mod 8)) mod 8\<close> zero
  bytes, where \<open>p\<close> is the length of the whole file once the key's bytes are in it, that is
  the absolute offset after the payload; and the absolute offset after the padding is a
  multiple of 8. This holds from any starting offset, aligned or not.
\<close>

theorem padding_after_each_record:
  assumes run: "write_keys bo fix keys wh = (None, keys', msgs, wh')"
    and n: "n < length keys"
  shows "\<exists>msgs1 wh1 msgs2 wh2.
           write_keys bo fix (take n keys) wh = (None, take n keys', msgs1, wh1)
         \<and> Key_write bo (keys' ! n) wh1 = (None, wh2)
         \<and> write_keys bo fix (take (Suc n) keys) wh = (None, take (Suc n) keys', msgs2, wh2)
         \<and> written wh2 =
               (written wh1 @ key_bytes bo (keys' ! n))
                 @ replicate ((8 - (length (written wh1 @ key_bytes bo (keys' ! n)) mod 8)) mod 8)
                     (CHR 0x00)
         \<and> out_tell wh2 mod 8 = 0
         \<and> (\<exists>rest. written wh' = written wh2 @ rest)"
proof -
  define fk where "fk = (\<lambda>k. fst (fix_key fix k))"
  define off where "off = out_tell wh"
  note wk = write_keys_None[OF run]
  from wk have ks: "keys' = map fk keys"
    and wr: "written wh' = written wh @ encoded_keys bo keys' off"
    by (simp_all add: fk_def off_def)
  from write_keys_None_conds[OF run]
  have rng: "list_all (\<lambda>k. in_range_Q (pod_size k)) keys'"
    and fits: "length (encoded_keys bo keys' off) \<le> room wh"
    by (simp_all add: ks fk_def off_def)
  have n': "n < length keys'"
    using n by (simp add: ks)
  define e1 where "e1 = encoded_keys bo (take n keys') off"
  define e2 where "e2 = encoded_keys bo (take (Suc n) keys') off"
  define kn where "kn = keys' ! n"
  have e2: "e2 = e1 @ encoded bo kn (off + length e1)"
    unfolding e1_def e2_def kn_def by (rule encoded_keys_take_Suc[OF n'])
  have le2: "length e2 \<le> room wh"
    using encoded_keys_take_le[of bo "Suc n" keys' off] fits by (simp add: e2_def)
  then have le1: "length e1 \<le> room wh"
    by (simp add: e2)
  define wh1 where "wh1 = wh\<lparr>written := written wh @ e1, room := room wh - length e1\<rparr>"
  define wh2 where "wh2 = wh\<lparr>written := written wh @ e2, room := room wh - length e2\<rparr>"
  have t1: "take n keys' = map fk (take n keys)" and t2: "take (Suc n) keys' = map fk (take (Suc n) keys)"
    by (simp_all only: ks take_map)
  have rng1: "list_all (\<lambda>k. in_range_Q (pod_size k)) (take n keys')"
    and rng2: "list_all (\<lambda>k. in_range_Q (pod_size k)) (take (Suc n) keys')"
    using rng by (auto simp: list_all_iff dest: in_set_takeD)
  have rngn: "in_range_Q (pod_size kn)"
    using rng n' by (simp add: list_all_length kn_def)
  obtain msgs1 where w1: "write_keys bo fix (take n keys) wh = (None, take n keys', msgs1, wh1)"
    using write_keys_ok[of "fix" "take n keys" bo wh] rng1 le1
    by (simp add: t1[unfolded fk_def, symmetric] e1_def off_def wh1_def)
  obtain msgs2 where w2: "write_keys bo fix (take (Suc n) keys) wh = (None, take (Suc n) keys', msgs2, wh2)"
    using write_keys_ok[of "fix" "take (Suc n) keys" bo wh] rng2 le2
    by (simp add: t2[unfolded fk_def, symmetric] e2_def off_def wh2_def)
  have tell1: "out_tell wh1 = off + length e1"
    by (simp add: wh1_def out_tell_def off_def)
  have "length (encoded bo kn (out_tell wh1)) \<le> room wh1"
    using le2 unfolding tell1 by (simp add: e2 wh1_def)
  from Key_write_ok[OF rngn this]
  have kw: "Key_write bo kn wh1 = (None, wh2)"
    using le2 unfolding tell1 by (simp add: wh1_def wh2_def e2)
  have by2: "written wh2 =
               (written wh1 @ key_bytes bo kn)
                 @ replicate ((8 - (length (written wh1 @ key_bytes bo kn) mod 8)) mod 8) (CHR 0x00)"
    by (simp add: wh2_def wh1_def e2 encoded_def pack_x_def padding_at_def length_key_bytes
        off_def out_tell_def add.assoc)
  have al: "out_tell wh2 mod 8 = 0"
    using Key_write_aligned[OF kw] .
  have "encoded_keys bo keys' off = encoded_keys bo (take (Suc n) keys' @ drop (Suc n) keys') off"
    by simp
  also have "\<dots> = e2 @ encoded_keys bo (drop (Suc n) keys') (off + length e2)"
    unfolding e2_def by (rule encoded_keys_append)
  finally have "\<exists>rest. written wh' = written wh2 @ rest"
    by (simp add: wr wh2_def)
  with w1 kw w2 by2 al show ?thesis
    unfolding kn_def
    by - (rule exI[of _ msgs1], rule exI[of _ wh1], rule exI[of _ msgs2], rule exI[of _ wh2],
        intro conjI, assumption+)
qed

theorem padding_after_each_record_witness:
  "\<exists>keys' msgs wh'.
     write_keys LittleEndian True [\<lparr>key_id = ''percona_binlog'', key_type = ''AES'', user_id = [], key = ''abcd''\<rparr>,
      \<lparr>key_id = ''other'', key_type = ''AES'', user_id = ''root@localhost'', key = ''k''\<rparr>] \<lparr>written = ''Keyring file version:1.0'', room = 1000\<rparr> = (None, keys', msgs, wh')
     \<and> 1 < length [\<lparr>key_id = ''percona_binlog'', key_type = ''AES'', user_id = [], key = ''abcd''\<rparr>,
      \<lparr>key_id = ''other'', key_type = ''AES'', user_id = ''root@localhost'', key = ''k''\<rparr>]
     \<and> (\<exists>msgs1 wh1 msgs2 wh2.
           write_keys LittleEndian True (take 1 [\<lparr>key_id = ''percona_binlog'', key_type = ''AES'', user_id = [], key = ''abcd''\<rparr>,
      \<lparr>key_id = ''other'', key_type = ''AES'', user_id = ''root@localhost'', key = ''k''\<rparr>]) \<lparr>written = ''Keyring file version:1.0'', room = 1000\<rparr> = (None, take 1 keys', msgs1, wh1)
         \<and> Key_write LittleEndian (keys' ! 1) wh1 = (None, wh2)
         \<and> write_keys LittleEndian True (take (Suc 1) [\<lparr>key_id = ''percona_binlog'', key_type = ''AES'', user_id = [], key = ''abcd''\<rparr>,
      \<lparr>key_id = ''other'', key_type = ''AES'', user_id = ''root@localhost'', key = ''k''\<rparr>]) \<lparr>written = ''Keyring file version:1.0'', room = 1000\<rparr>
               = (None, take (Suc 1) keys', msgs2, wh2)
         \<and> written wh2 =
               (written wh1 @ key_bytes LittleEndian (keys' ! 1))
                 @ replicate
                     ((8 - (length (written wh1 @ key_bytes LittleEndian (keys' ! 1)) mod 8)) mod 8)
                     (CHR 0x00)
         \<and> out_tell wh2 mod 8 = 0
         \<and> (\<exists>rest. written wh' = written wh2 @ rest))"
proof -
  obtain keys' msgs wh' where
    h: "write_keys LittleEndian True [\<lparr>key_id = ''percona_binlog'', key_type = ''AES'', user_id = [], key = ''abcd''\<rparr>,
      \<lparr>key_id = ''other'', key_type = ''AES'', user_id = ''root@localhost'', key = ''k''\<rparr>] \<lparr>written = ''Keyring file version:1.0'', room = 1000\<rparr> = (None, keys', msgs, wh')"
    using write_keys_ok [of True "[\<lparr>key_id = ''percona_binlog'', key_type = ''AES'', user_id = [], key = ''abcd''\<rparr>,
      \<lparr>key_id = ''other'', key_type = ''AES'', user_id = ''root@localhost'', key = ''k''\<rparr>]" LittleEndian "\<lparr>written = ''Keyring file version:1.0'', room = 1000\<rparr>"]
    by (simp add: fix_key_def in_range_Q_def pod_size_eq length_encoded padding_at_def
        out_tell_def)
  have n: "1 < length [\<lparr>key_id = ''percona_binlog'', key_type = ''AES'', user_id = [], key = ''abcd''\<rparr>,
      \<lparr>key_id = ''other'', key_type = ''AES'', user_id = ''root@localhost'', key = ''k''\<rparr>]"
    by simp
  from h n padding_after_each_record [OF h n] show ?thesis
    by - (rule exI[of _ keys'], rule exI[of _ msgs], rule exI[of _ wh'],
        intro conjI, assumption+)
qed

subsection \<open>Reading a key from any file\<close>

lemma unpack_QQQQQ_Some:
  "length buf = 40 \<Longrightarrow> \<exists>t a b c d. unpack_QQQQQ bo buf = Some (t, a, b, c, d)"
  by (simp add: unpack_QQQQQ_def calcsize_QQQQQ_def)

lemma file_read_result:
  assumes "file_read mem n s = Inr (f, s')"
  shows "f = take n (drop (pos s) (data s))" and "pos s' = pos s + length f"
    and "data s' = data s"
  using assms by (auto simp: file_read_def Let_def split: if_splits)

lemma file_read_cases:
  obtains (served) f s' where "readable mem n" and "file_read mem n s = Inr (f, s')"
  | (refused) e where "\<not> readable mem n" and "file_read mem n s = Inl e"
      and "e = OverflowError \<or> e = MemoryError"
proof (cases "readable mem n")
  case True
  with file_read_readable[OF True, of s] served show ?thesis by blast
next
  case False
  with file_read_refused[OF False, of s] refused show ?thesis by auto
qed

lemma file_read_header:
  assumes "40 \<le> length (data s) - pos s"
  shows "file_read mem calcsize_QQQQQ s
           = Inr (take 40 (drop (pos s) (data s)), s\<lparr>pos := pos s + 40\<rparr>)"
  using assms by (simp add: file_read_readable readable_small calcsize_QQQQQ_def min_def)

lemma Key_read_header:
  assumes h: "40 \<le> length (data s) - pos s"
    and u: "unpack_QQQQQ bo (take 40 (drop (pos s) (data s))) = Some (t, a, b, c, d)"
    and m: "readable mem a" "readable mem b" "readable mem c" "readable mem d"
  shows "\<exists>k s'. Key_read mem bo s = Inr (Some k, s')
         \<and> key_id k = take a (drop (pos s + 40) (data s))
         \<and> key_type k = take b (drop (pos s + 40 + length (key_id k)) (data s))
         \<and> user_id k = take c (drop (pos s + 40 + length (key_id k) + length (key_type k)) (data s))
         \<and> key k = take d (drop (pos s + 40 + length (key_id k) + length (key_type k)
                                  + length (user_id k)) (data s))
         \<and> data s' = data s"
proof -
  define s0 where "s0 = s\<lparr>pos := pos s + 40\<rparr>"
  have r0: "file_read mem calcsize_QQQQQ s = Inr (take 40 (drop (pos s) (data s)), s0)"
    unfolding s0_def by (rule file_read_header[OF h])
  obtain f1 s1 where r1: "file_read mem a s0 = Inr (f1, s1)"
    using file_read_readable[OF m(1)] by blast
  obtain f2 s2 where r2: "file_read mem b s1 = Inr (f2, s2)"
    using file_read_readable[OF m(2)] by blast
  obtain f3 s3 where r3: "file_read mem c s2 = Inr (f3, s3)"
    using file_read_readable[OF m(3)] by blast
  obtain f4 s4 where r4: "file_read mem d s3 = Inr (f4, s4)"
    using file_read_readable[OF m(4)] by blast
  have "readable mem ((8 - (file_tell s4 mod 8)) mod 8)"
    by (rule readable_small) (rule padding_at_le[unfolded padding_at_def])
  then obtain f5 s5 where r5: "read_padding mem s4 = Inr (f5, s5)"
    unfolding read_padding_def Let_def using file_read_readable by blast
  have kr: "Key_read mem bo s
      = Inr (Some \<lparr>key_id = f1, key_type = f2, user_id = f3, key = f4\<rparr>, s5)"
    by (simp add: Key_read_def and_then_def r0 u r1 r2 r3 r4 r5)
  note q1 = file_read_result[OF r1]
  note q2 = file_read_result[OF r2]
  note q3 = file_read_result[OF r3]
  note q4 = file_read_result[OF r4]
  note q5 = file_read_result[OF r5[unfolded read_padding_def Let_def]]
  have p0: "pos s0 = pos s + 40" and d0: "data s0 = data s"
    by (simp_all add: s0_def)
  have e1: "f1 = take a (drop (pos s + 40) (data s))"
    using q1(1) by (simp add: p0 d0)
  have p1: "pos s1 = pos s + 40 + length f1" and d1: "data s1 = data s"
    using q1(2,3) by (simp_all add: p0 d0)
  have e2: "f2 = take b (drop (pos s + 40 + length f1) (data s))"
    using q2(1) by (simp add: p1 d1)
  have p2: "pos s2 = pos s + 40 + length f1 + length f2" and d2: "data s2 = data s"
    using q2(2,3) by (simp_all add: p1 d1)
  have e3: "f3 = take c (drop (pos s + 40 + length f1 + length f2) (data s))"
    using q3(1) by (simp add: p2 d2)
  have p3: "pos s3 = pos s + 40 + length f1 + length f2 + length f3" and d3: "data s3 = data s"
    using q3(2,3) by (simp_all add: p2 d2)
  have e4: "f4 = take d (drop (pos s + 40 + length f1 + length f2 + length f3) (data s))"
    using q4(1) by (simp add: p3 d3)
  have d5: "data s5 = data s"
    using q5(3) q4(3) by (simp add: d3)
  define K where "K = \<lparr>key_id = f1, key_type = f2, user_id = f3, key = f4\<rparr>"
  have sel: "key_id K = f1" "key_type K = f2" "user_id K = f3" "key K = f4"
    by (simp_all add: K_def)
  show ?thesis
  proof (intro exI conjI)
    show "Key_read mem bo s = Inr (Some K, s5)"
      unfolding K_def by (rule kr)
    show "key_id K = take a (drop (pos s + 40) (data s))"
      unfolding sel by (rule e1)
    show "key_type K = take b (drop (pos s + 40 + length (key_id K)) (data s))"
      unfolding sel by (rule e2)
    show "user_id K = take c (drop (pos s + 40 + length (key_id K) + length (key_type K)) (data s))"
      unfolding sel by (rule e3)
    show "key K = take d (drop (pos s + 40 + length (key_id K) + length (key_type K)
                                  + length (user_id K)) (data s))"
      unfolding sel by (rule e4)
    show "data s5 = data s"
      by (rule d5)
  qed
qed

lemma Key_read_refused:
  assumes h: "40 \<le> length (data s) - pos s"
    and u: "unpack_QQQQQ bo (take 40 (drop (pos s) (data s))) = Some (t, a, b, c, d)"
    and m: "\<not> (readable mem a \<and> readable mem b \<and> readable mem c \<and> readable mem d)"
  shows "Key_read mem bo s = Inl OverflowError \<or> Key_read mem bo s = Inl MemoryError"
proof -
  define s0 where "s0 = s\<lparr>pos := pos s + 40\<rparr>"
  have r0: "file_read mem calcsize_QQQQQ s = Inr (take 40 (drop (pos s) (data s)), s0)"
    unfolding s0_def by (rule file_read_header[OF h])
  show ?thesis
  proof (cases rule: file_read_cases[of mem a s0])
    case (refused e)
    then show ?thesis
      by (auto simp: Key_read_def and_then_def r0 u)
  next
    case r1: (served f1 s1)
    show ?thesis
    proof (cases rule: file_read_cases[of mem b s1])
      case (refused e)
      then show ?thesis
        by (auto simp: Key_read_def and_then_def r0 u r1)
    next
      case r2: (served f2 s2)
      show ?thesis
      proof (cases rule: file_read_cases[of mem c s2])
        case (refused e)
        then show ?thesis
          by (auto simp: Key_read_def and_then_def r0 u r1 r2)
      next
        case r3: (served f3 s3)
        show ?thesis
        proof (cases rule: file_read_cases[of mem d s3])
          case (refused e)
          then show ?thesis
            by (auto simp: Key_read_def and_then_def r0 u r1 r2 r3)
        next
          case r4: (served f4 s4)
          with r1 r2 r3 m show ?thesis
            by simp
        qed
      qed
    qed
  qed
qed

lemma Key_read_Inr_None:
  assumes "Key_read mem bo s = Inr (None, s')"
  shows "length (data s) - pos s < 40"
proof (rule ccontr)
  assume "\<not> length (data s) - pos s < 40"
  then have h: "40 \<le> length (data s) - pos s" by simp
  then have "length (take 40 (drop (pos s) (data s))) = 40" by simp
  from unpack_QQQQQ_Some[OF this, of bo] obtain t a b c d
    where u: "unpack_QQQQQ bo (take 40 (drop (pos s) (data s))) = Some (t, a, b, c, d)"
    by blast
  show False
  proof (cases "readable mem a \<and> readable mem b \<and> readable mem c \<and> readable mem d")
    case True
    with Key_read_header[OF h u, of mem] assms show False by auto
  next
    case False
    with Key_read_refused[OF h u, of mem] assms show False by auto
  qed
qed


lemma take_take_drop: "take a xs @ take b (drop (length (take a xs)) xs) = take (a + b) xs"
  by (cases "a \<le> length xs") (simp_all add: take_add min_def)

lemma truncated_keyring_header:
  "40 \<le> length (data \<lparr>data = truncated_keyring, pos = 24\<rparr>)
           - pos \<lparr>data = truncated_keyring, pos = 24\<rparr>"
  "unpack_QQQQQ LittleEndian
     (take 40 (drop (pos \<lparr>data = truncated_keyring, pos = 24\<rparr>)
                 (data \<lparr>data = truncated_keyring, pos = 24\<rparr>)))
   = Some (45, 5, 0, 0, 0)"
proof -
  have h: "take 40 (drop 24 truncated_keyring) = truncated_header"
    by (simp add: truncated_keyring_def truncated_header_def)
  show "40 \<le> length (data \<lparr>data = truncated_keyring, pos = 24\<rparr>)
           - pos \<lparr>data = truncated_keyring, pos = 24\<rparr>"
    by (simp add: truncated_keyring_def truncated_header_def)
  show "unpack_QQQQQ LittleEndian
     (take 40 (drop (pos \<lparr>data = truncated_keyring, pos = 24\<rparr>)
                 (data \<lparr>data = truncated_keyring, pos = 24\<rparr>)))
   = Some (45, 5, 0, 0, 0)"
    by (simp add: h) (simp add: truncated_header_def unpack_QQQQQ_def unpack_Q_def native_def
        calcsize_QQQQQ_def)
qed

lemma oversized_keyring_header:
  "40 \<le> length (data \<lparr>data = oversized_keyring, pos = 24\<rparr>)
           - pos \<lparr>data = oversized_keyring, pos = 24\<rparr>"
  "unpack_QQQQQ LittleEndian
     (take 40 (drop (pos \<lparr>data = oversized_keyring, pos = 24\<rparr>)
                 (data \<lparr>data = oversized_keyring, pos = 24\<rparr>)))
   = Some (0, 2 ^ 63, 0, 0, 0)"
proof -
  have h: "take 40 (drop 24 oversized_keyring) = oversized_header"
    by (simp add: oversized_keyring_def oversized_header_def)
  show "40 \<le> length (data \<lparr>data = oversized_keyring, pos = 24\<rparr>)
           - pos \<lparr>data = oversized_keyring, pos = 24\<rparr>"
    by (simp add: oversized_keyring_def oversized_header_def)
  show "unpack_QQQQQ LittleEndian
     (take 40 (drop (pos \<lparr>data = oversized_keyring, pos = 24\<rparr>)
                 (data \<lparr>data = oversized_keyring, pos = 24\<rparr>)))
   = Some (0, 2 ^ 63, 0, 0, 0)"
    by (simp add: h) (simp add: oversized_header_def unpack_QQQQQ_def unpack_Q_def native_def
        calcsize_QQQQQ_def)
qed

subsection \<open>C5: a key cut short by the end of the file\<close>

text \<open>
  Claim C5 says that \<open>Key.read\<close> fails with \<open>TruncatedRecord\<close> when the file ends inside a
  field. The script has no such error: \<open>infile.read(n)\<close> returns the bytes there are, and
  \<open>Key.read\<close> builds a key from them. On the sample keyring the declared \<open>key_id\<close> has 5
  bytes, 2 are left, and the key returned has the \<open>key_id\<close> \<open>ab\<close>.
\<close>

theorem truncated_record_counterexample:
  "\<exists>s'. Key_read 0 LittleEndian \<lparr>data = truncated_keyring, pos = 24\<rparr>
          = Inr (Some \<lparr>key_id = ''ab'', key_type = [], user_id = [], key = []\<rparr>, s')"
proof -
  define s where "s = \<lparr>data = truncated_keyring, pos = 24\<rparr>"
  note hu = truncated_keyring_header[folded s_def]
  have m: "readable 0 5" "readable 0 0"
    by (simp_all add: readable_def)
  from Key_read_header[OF hu m(1) m(2) m(2) m(2)]
  obtain k s' where kr: "Key_read 0 LittleEndian s = Inr (Some k, s')"
    and e1: "key_id k = take 5 (drop (pos s + 40) (data s))"
    and e2: "key_type k = take 0 (drop (pos s + 40 + length (key_id k)) (data s))"
    and e3: "user_id k = take 0 (drop (pos s + 40 + length (key_id k) + length (key_type k)) (data s))"
    and e4: "key k = take 0 (drop (pos s + 40 + length (key_id k) + length (key_type k)
                                  + length (user_id k)) (data s))"
    by blast
  have "key_id k = ''ab''"
    unfolding e1 by (simp add: s_def truncated_keyring_def truncated_header_def)
  moreover have "key_type k = []" "user_id k = []" "key k = []"
    by (simp_all add: e2 e3 e4)
  ultimately have "k = \<lparr>key_id = ''ab'', key_type = [], user_id = [], key = []\<rparr>"
    by simp
  with kr show ?thesis
    unfolding s_def by blast
qed

text \<open>
  Claim C5 as amended. Let the 40 bytes of the lengths be there, and let \<open>a\<close>, \<open>b\<close>, \<open>c\<close>,
  \<open>d\<close> be the four lengths they declare. If \<open>read\<close> serves each of them (each is below
  \<open>2 ^ 63\<close> and within the memory of the interpreter), \<open>Key.read\<close> returns a key, also when
  the file ends inside a field: each field is the slice of the file that starts where the
  previous field ended, as long as declared or as long as the file allows. Together the four
  fields are the first \<open>a + b + c + d\<close> bytes after the lengths, hence all the remaining bytes
  when the file ends before the declared lengths are satisfied. If \<open>read\<close> does not serve one
  of the four lengths, \<open>Key.read\<close> ends with the \<open>OverflowError\<close> or the \<open>MemoryError\<close> of
  that \<open>read\<close>, whatever the length of the file. No other outcome exists: there is no
  error for a short field.
\<close>

theorem short_fields_returned:
  assumes "40 \<le> length (data s) - pos s"
    and "unpack_QQQQQ bo (take 40 (drop (pos s) (data s))) = Some (t, a, b, c, d)"
  shows "(readable mem a \<and> readable mem b \<and> readable mem c \<and> readable mem d \<longrightarrow>
           (\<exists>k s'. Key_read mem bo s = Inr (Some k, s')
              \<and> key_id k = take a (drop (pos s + 40) (data s))
              \<and> key_type k = take b (drop (pos s + 40 + length (key_id k)) (data s))
              \<and> user_id k
                  = take c (drop (pos s + 40 + length (key_id k) + length (key_type k)) (data s))
              \<and> key k = take d (drop (pos s + 40 + length (key_id k) + length (key_type k)
                                       + length (user_id k)) (data s))
              \<and> key_id k @ key_type k @ user_id k @ key k
                  = take (a + b + c + d) (drop (pos s + 40) (data s))))
       \<and> (\<not> (readable mem a \<and> readable mem b \<and> readable mem c \<and> readable mem d) \<longrightarrow>
            Key_read mem bo s = Inl OverflowError \<or> Key_read mem bo s = Inl MemoryError)"
proof (intro conjI impI)
  assume m: "readable mem a \<and> readable mem b \<and> readable mem c \<and> readable mem d"
  then have m1: "readable mem a" and m2: "readable mem b" and m3: "readable mem c"
    and m4: "readable mem d"
    by simp_all
  from Key_read_header[OF assms m1 m2 m3 m4]
  obtain k s' where kr: "Key_read mem bo s = Inr (Some k, s')"
    and e1: "key_id k = take a (drop (pos s + 40) (data s))"
    and e2: "key_type k = take b (drop (pos s + 40 + length (key_id k)) (data s))"
    and e3: "user_id k = take c (drop (pos s + 40 + length (key_id k) + length (key_type k)) (data s))"
    and e4: "key k = take d (drop (pos s + 40 + length (key_id k) + length (key_type k)
                                  + length (user_id k)) (data s))"
    by blast
  define xs where "xs = drop (pos s + 40) (data s)"
  have f1: "key_id k = take a xs"
    by (simp add: e1 xs_def)
  have f2: "key_type k = take b (drop (length (key_id k)) xs)"
    by (subst e2) (simp add: xs_def ac_simps)
  have f3: "user_id k = take c (drop (length (key_id k @ key_type k)) xs)"
    by (subst e3) (simp add: xs_def ac_simps)
  have f4: "key k = take d (drop (length (key_id k @ key_type k @ user_id k)) xs)"
    by (subst e4) (simp add: xs_def ac_simps)
  have c2: "key_id k @ key_type k = take (a + b) xs"
    by (subst f2, subst (1 2) f1) (rule take_take_drop)
  have c3: "key_id k @ key_type k @ user_id k = take (a + b + c) xs"
    using take_take_drop[of "a + b" xs c] f3 c2 by (simp add: append_assoc[symmetric] del: append_assoc)
  have c4: "key_id k @ key_type k @ user_id k @ key k = take (a + b + c + d) xs"
    using take_take_drop[of "a + b + c" xs d] f4 c3
    by (metis append_assoc)
  from kr e1 e2 e3 e4 c4[unfolded xs_def]
  show "\<exists>k s'. Key_read mem bo s = Inr (Some k, s')
              \<and> key_id k = take a (drop (pos s + 40) (data s))
              \<and> key_type k = take b (drop (pos s + 40 + length (key_id k)) (data s))
              \<and> user_id k
                  = take c (drop (pos s + 40 + length (key_id k) + length (key_type k)) (data s))
              \<and> key k = take d (drop (pos s + 40 + length (key_id k) + length (key_type k)
                                       + length (user_id k)) (data s))
              \<and> key_id k @ key_type k @ user_id k @ key k
                  = take (a + b + c + d) (drop (pos s + 40) (data s))"
    by blast
next
  assume "\<not> (readable mem a \<and> readable mem b \<and> readable mem c \<and> readable mem d)"
  from Key_read_refused[OF assms this]
  show "Key_read mem bo s = Inl OverflowError \<or> Key_read mem bo s = Inl MemoryError" .
qed

theorem short_fields_returned_witness:
  "(\<exists>k s'. Key_read 0 LittleEndian \<lparr>data = truncated_keyring, pos = 24\<rparr> = Inr (Some k, s')
         \<and> key_id k @ key_type k @ user_id k @ key k
             = take (5 + 0 + 0 + 0) (drop (24 + 40) truncated_keyring)
         \<and> length truncated_keyring < 24 + 40 + (5 + 0 + 0 + 0))
   \<and> (Key_read 0 LittleEndian \<lparr>data = oversized_keyring, pos = 24\<rparr> = Inl OverflowError
      \<or> Key_read 0 LittleEndian \<lparr>data = oversized_keyring, pos = 24\<rparr> = Inl MemoryError)"
proof -
  have "length truncated_keyring < 24 + 40 + (5 + 0 + 0 + 0)"
    by (simp add: truncated_keyring_def truncated_header_def)
  moreover have "readable 0 5" "readable 0 0" "\<not> readable 0 (2 ^ 63)"
    by (simp_all add: readable_def)
  ultimately show ?thesis
    using short_fields_returned [OF truncated_keyring_header, of 0]
      short_fields_returned [OF oversized_keyring_header, of 0]
    by auto
qed

subsection \<open>C6: the end of the keys\<close>

text \<open>
  Claim C6 says that \<open>Key.read\<close>, on fewer than 40 remaining bytes, leaves the file at the
  first byte of the sentinel. The script reads with \<open>infile.read(40)\<close> before it tests
  anything, so the remaining bytes are consumed: on a keyring without keys, read from offset
  24, the position ends at 27, after \<open>EOF\<close>, not at 24.
\<close>

theorem eof_position_counterexample:
  "Key_read 0 LittleEndian \<lparr>data = ''Keyring file version:1.0EOF'', pos = 24\<rparr>
   = Inr (None, \<lparr>data = ''Keyring file version:1.0EOF'', pos = 27\<rparr>)"
  using Key_read_eof [of "\<lparr>data = ''Keyring file version:1.0EOF'', pos = 24\<rparr>" 0 LittleEndian]
  by simp

text \<open>
  Claim C6 as amended. \<open>Key.read\<close> returns \<open>False\<close>, which is not an error, exactly when
  fewer than 40 bytes remain at the position where it starts; it has then consumed those
  bytes, and the position is the end of the file. What the remaining bytes are is not looked
  at.
\<close>

theorem eof_consumes_rest:
  assumes "pos s \<le> length (data s)"
  shows "((\<exists>s'. Key_read mem bo s = Inr (None, s')) \<longleftrightarrow> length (data s) - pos s < 40)
       \<and> (length (data s) - pos s < 40
            \<longrightarrow> Key_read mem bo s = Inr (None, s\<lparr>pos := length (data s)\<rparr>))"
proof -
  have 1: "length (data s) - pos s < 40
      \<Longrightarrow> Key_read mem bo s = Inr (None, s\<lparr>pos := length (data s)\<rparr>)"
    using Key_read_eof[of s mem bo] assms by simp
  have 2: "\<not> length (data s) - pos s < 40 \<Longrightarrow> \<not> (\<exists>s'. Key_read mem bo s = Inr (None, s'))"
    using Key_read_Inr_None[of mem bo s] by blast
  from 1 2 show ?thesis
    by (cases "length (data s) - pos s < 40") simp_all
qed

theorem eof_consumes_rest_witness:
  "pos \<lparr>data = ''Keyring file version:1.0EOF'', pos = 24\<rparr>
     \<le> length (data \<lparr>data = ''Keyring file version:1.0EOF'', pos = 24\<rparr>)
   \<and> length (data \<lparr>data = ''Keyring file version:1.0EOF'', pos = 24\<rparr>)
       - pos \<lparr>data = ''Keyring file version:1.0EOF'', pos = 24\<rparr> < 40
   \<and> Key_read 0 BigEndian \<lparr>data = ''Keyring file version:1.0EOF'', pos = 24\<rparr>
       = Inr (None, \<lparr>data = ''Keyring file version:1.0EOF'', pos = 27\<rparr>)"
  using eof_consumes_rest [of "\<lparr>data = ''Keyring file version:1.0EOF'', pos = 24\<rparr>" 0 BigEndian]
  by simp

subsection \<open>The header loop\<close>

lemma file_read_eq:
  assumes "n \<le> 40"
  shows "file_read mem n s = Inr (take n (drop (pos s) (data s)),
                                  s\<lparr>pos := pos s + length (take n (drop (pos s) (data s)))\<rparr>)"
  by (rule file_read_readable) (rule readable_small[OF assms])

lemma header_loop_Some_colon:
  assumes "header_loop mem buf header s = Some y"
  shows "buf = '':'' \<or> CHR '':'' \<in> set (drop (pos s) (data s))"
proof (rule header_loop.raw_induct
    [where P = "\<lambda>mem buf header s y. buf = '':'' \<or> CHR '':'' \<in> set (drop (pos s) (data s))",
      OF _ assms])
  fix f :: "nat \<Rightarrow> bytes \<Rightarrow> bytes \<Rightarrow> istream \<Rightarrow> (error + bytes \<times> istream) option"
    and mem :: nat and buf header :: bytes and s :: istream and y :: "error + bytes \<times> istream"
  assume IH: "\<And>mem buf header s y. f mem buf header s = Some y
      \<Longrightarrow> buf = '':'' \<or> CHR '':'' \<in> set (drop (pos s) (data s))"
    and hyp: "(if buf \<noteq> '':''
               then (case file_read mem 1 s of
                       Inl e \<Rightarrow> Some (Inl e)
                     | Inr (buf', infile') \<Rightarrow> f mem buf' (header @ buf') infile')
               else Some (Inr (header, s))) = Some y"
  show "buf = '':'' \<or> CHR '':'' \<in> set (drop (pos s) (data s))"
  proof (cases "buf = '':''")
    case True
    then show ?thesis by simp
  next
    case False
    define buf' where "buf' = take 1 (drop (pos s) (data s))"
    define s' where "s' = s\<lparr>pos := pos s + length buf'\<rparr>"
    have r: "file_read mem 1 s = Inr (buf', s')"
      by (simp add: file_read_eq buf'_def s'_def)
    from hyp False r have "f mem buf' (header @ buf') s' = Some y"
      by simp
    from IH[OF this] have "buf' = '':'' \<or> CHR '':'' \<in> set (drop (pos s') (data s'))" .
    then have "CHR '':'' \<in> set (drop (pos s) (data s))"
    proof
      assume "buf' = '':''"
      then have "CHR '':'' \<in> set (take 1 (drop (pos s) (data s)))"
        by (simp add: buf'_def)
      then show ?thesis
        by (rule in_set_takeD)
    next
      assume "CHR '':'' \<in> set (drop (pos s') (data s'))"
      then have "CHR '':'' \<in> set (drop (length buf') (drop (pos s) (data s)))"
        by (simp add: s'_def add.commute)
      then show ?thesis
        by (rule in_set_dropD)
    qed
    then show ?thesis by simp
  qed
qed

lemma header_loop_no_colon:
  assumes "CHR '':'' \<notin> set (drop (pos s) (data s))" and "buf \<noteq> '':''"
  shows "header_loop mem buf header s = None"
proof (cases "header_loop mem buf header s")
  case None
  then show ?thesis .
next
  case (Some y)
  from header_loop_Some_colon[OF this] assms show ?thesis by simp
qed

lemma header_loop_colon:
  assumes "data s = pre @ xs" and "pos s = length pre" and "CHR '':'' \<in> set xs"
    and "buf \<noteq> '':''"
  shows "header_loop mem buf header s =
           Some (Inr (header @ takeWhile (\<lambda>c. c \<noteq> CHR '':'') xs @ '':'',
                 s\<lparr>pos := length pre + Suc (length (takeWhile (\<lambda>c. c \<noteq> CHR '':'') xs))\<rparr>))"
  using assms
proof (induction xs arbitrary: pre buf header s)
  case Nil
  then show ?case by simp
next
  case (Cons x xs)
  define s' where "s' = s\<lparr>pos := length pre + 1\<rparr>"
  have r: "file_read mem 1 s = Inr ([x], s')"
    using Cons.prems(1,2) by (simp add: file_read_eq s'_def)
  have step: "header_loop mem buf header s = header_loop mem [x] (header @ [x]) s'"
    using r by (subst header_loop.simps) (simp add: Cons.prems(4))
  show ?case
  proof (cases "x = CHR '':''")
    case True
    have "header_loop mem [x] (header @ [x]) s' = Some (Inr (header @ [x], s'))"
      by (subst header_loop.simps) (simp add: True)
    with step show ?thesis
      by (simp add: True s'_def)
  next
    case False
    have d: "data s' = (pre @ [x]) @ xs" and p: "pos s' = length (pre @ [x])"
      using Cons.prems(1) by (simp_all add: s'_def)
    have c: "CHR '':'' \<in> set xs"
      using Cons.prems(3) False by auto
    have b: "[x] \<noteq> '':''"
      using False by simp
    from Cons.IH[OF d p c b, of "header @ [x]"] step show ?thesis
      using False by (simp add: s'_def)
  qed
qed


lemma read_keyring_header_no_colon:
  assumes "CHR '':'' \<notin> set (drop (pos s) (data s))"
  shows "read_keyring_header mem s = None"
  by (simp add: read_keyring_header_def header_loop_no_colon[OF assms])

lemma takeWhile_colon:
  "CHR '':'' \<in> set xs \<Longrightarrow>
     takeWhile (\<lambda>c. c \<noteq> CHR '':'') xs @ '':''
       = take (Suc (length (takeWhile (\<lambda>c. c \<noteq> CHR '':'') xs))) xs"
  by (induction xs) auto

subsection \<open>C7: the scan for the colon\<close>

text \<open>
  Claim C7 says that the header read stops within a fixed scan length and fails with
  \<open>MalformedHeader\<close> when it finds no colon. \<open>read_keyring_header\<close> has neither a bound
  nor an error: on a file without a colon, \<open>read(1)\<close> returns the empty string at the end of
  the file, the empty string is not a colon, and the loop reads again. The call never returns.
\<close>

theorem header_without_colon_counterexample:
  "read_keyring_header 0 \<lparr>data = ''Keyring file version 1.0'', pos = 0\<rparr> = None"
  by (rule read_keyring_header_no_colon) simp

text \<open>
  Claim C7 as amended. Whenever there is a colon at or after the current position, at any
  distance \<open>n\<close>, the header read returns: the header is every byte up to and including the
  first colon, followed by the next three bytes (fewer if the file ends), which are the
  version text; the position is left after them.
\<close>

theorem header_scan_to_colon:
  assumes "CHR '':'' \<in> set (drop (pos s) (data s))"
  shows "let rest = drop (pos s) (data s);
             n = length (takeWhile (\<lambda>c. c \<noteq> CHR '':'') rest);
             version_string = take 3 (drop (Suc n) rest)
         in read_keyring_header mem s =
              Some (Inr (take (Suc n) rest @ version_string,
                         [Keyring_file_version version_string],
                         s\<lparr>pos := pos s + Suc n + length version_string\<rparr>))"
proof -
  define rest where "rest = drop (pos s) (data s)"
  define n where "n = length (takeWhile (\<lambda>c. c \<noteq> CHR '':'') rest)"
  define s1 where "s1 = s\<lparr>pos := pos s + Suc n\<rparr>"
  from assms have "drop (pos s) (data s) \<noteq> []"
    by auto
  then have lt: "pos s < length (data s)"
    by simp
  have d: "data s = take (pos s) (data s) @ rest"
    by (simp add: rest_def)
  have p: "pos s = length (take (pos s) (data s))"
    using lt by simp
  have c: "CHR '':'' \<in> set rest"
    using assms by (simp add: rest_def)
  have "header_loop mem [] [] s =
      Some (Inr ([] @ takeWhile (\<lambda>c. c \<noteq> CHR '':'') rest @ '':'',
            s\<lparr>pos := length (take (pos s) (data s)) + Suc n\<rparr>))"
    unfolding n_def by (rule header_loop_colon[OF d p c]) simp
  then have hl: "header_loop mem [] [] s = Some (Inr (take (Suc n) rest, s1))"
    using takeWhile_colon[OF c] p by (simp add: n_def s1_def)
  have fr: "file_read mem 3 s1 = Inr (take 3 (drop (Suc n) rest),
      s\<lparr>pos := pos s + Suc n + length (take 3 (drop (Suc n) rest))\<rparr>)"
    by (simp add: file_read_eq s1_def rest_def add.commute)
  have "read_keyring_header mem s =
      Some (Inr (take (Suc n) rest @ take 3 (drop (Suc n) rest),
            [Keyring_file_version (take 3 (drop (Suc n) rest))],
            s\<lparr>pos := pos s + Suc n + length (take 3 (drop (Suc n) rest))\<rparr>))"
    by (simp add: read_keyring_header_def and_then_def hl fr)
  then show ?thesis
    unfolding Let_def rest_def[symmetric] n_def[symmetric] .
qed

theorem header_scan_to_colon_witness:
  "CHR '':'' \<in> set (drop (pos \<lparr>data = ''Keyring file version:1.0EOF'', pos = 0\<rparr>)
                       (data \<lparr>data = ''Keyring file version:1.0EOF'', pos = 0\<rparr>))
   \<and> read_keyring_header 0 \<lparr>data = ''Keyring file version:1.0EOF'', pos = 0\<rparr>
       = Some (Inr (''Keyring file version:1.0'', [Keyring_file_version ''1.0''],
                    \<lparr>data = ''Keyring file version:1.0EOF'', pos = 24\<rparr>))"
  using header_scan_to_colon [of "\<lparr>data = ''Keyring file version:1.0EOF'', pos = 0\<rparr>" 0]
  by (simp add: Let_def)

subsection \<open>Runs of \<open>main\<close>\<close>

lemma main_checks:
  assumes "infile opts \<notin> dom fs \<or> outfile opts \<in> dom fs"
  shows "\<exists>m. main mem bo space opts fs = Some (Some (RuntimeError m), [], fs)"
  using assms by (auto simp: main_def split: option.splits)

lemma header_loop_Inr:
  assumes "header_loop mem buf header s = Some y"
  shows "\<exists>h s'. y = Inr (h, s')"
proof (rule header_loop.raw_induct
    [where P = "\<lambda>mem buf header s y. \<exists>h s'. y = Inr (h, s')", OF _ assms])
  fix f :: "nat \<Rightarrow> bytes \<Rightarrow> bytes \<Rightarrow> istream \<Rightarrow> (error + bytes \<times> istream) option"
    and mem :: nat and buf header :: bytes and s :: istream and y :: "error + bytes \<times> istream"
  assume IH: "\<And>mem buf header s y. f mem buf header s = Some y \<Longrightarrow> \<exists>h s'. y = Inr (h, s')"
    and hyp: "(if buf \<noteq> '':''
               then (case file_read mem 1 s of
                       Inl e \<Rightarrow> Some (Inl e)
                     | Inr (buf', infile') \<Rightarrow> f mem buf' (header @ buf') infile')
               else Some (Inr (header, s))) = Some y"
  show "\<exists>h s'. y = Inr (h, s')"
  proof (cases "buf = '':''")
    case True
    with hyp show ?thesis by auto
  next
    case False
    define buf' where "buf' = take 1 (drop (pos s) (data s))"
    define s' where "s' = s\<lparr>pos := pos s + length buf'\<rparr>"
    have r: "file_read mem 1 s = Inr (buf', s')"
      by (simp add: file_read_eq buf'_def s'_def)
    from hyp False r have "f mem buf' (header @ buf') s' = Some y"
      by simp
    from IH[OF this] show ?thesis .
  qed
qed

lemma read_keyring_header_Inr:
  assumes "read_keyring_header mem s = Some y"
  shows "\<exists>header log1 s'. y = Inr (header, log1, s')"
proof -
  from assms obtain z where z: "header_loop mem [] [] s = Some z"
    by (cases "header_loop mem [] [] s") (simp_all add: read_keyring_header_def)
  from header_loop_Inr[OF z] obtain h s1 where "z = Inr (h, s1)"
    by blast
  with assms z show ?thesis
    by (auto simp: read_keyring_header_def and_then_def file_read_eq)
qed

lemma main_run:
  assumes "fs (infile opts) = Some contents" and "outfile opts \<notin> dom fs"
  shows "main mem bo space opts fs =
     (case read_keyring_header mem \<lparr>data = contents, pos = 0\<rparr> of
        None \<Rightarrow> None
      | Some (Inl e) \<Rightarrow> Some (Some e, [], fs(outfile opts \<mapsto> []))
      | Some (Inr (header, log1, rh1)) \<Rightarrow>
          (case load_keys mem bo rh1 [] [] of
             (Some e, keys, log2, rh2) \<Rightarrow> Some (Some e, log1 @ log2, fs(outfile opts \<mapsto> []))
           | (None, keys, log2, rh2) \<Rightarrow>
               (case writing_phase bo (fix_opt opts) header keys \<lparr>written = [], room = space\<rparr> of
                  (r, keys', log3, wh') \<Rightarrow>
                    Some (r, log1 @ log2 @ log3, fs(outfile opts \<mapsto> written wh')))))"
  using assms by (simp add: main_def Let_def split: option.splits prod.splits sum.splits)

lemma writing_phase_None:
  assumes "writing_phase bo fix header keys wh = (None, keys', msgs, wh')"
  shows "keys' = map (\<lambda>k. fst (fix_key fix k)) keys"
    and "written wh' = written wh @ header
           @ encoded_keys bo keys' (out_tell wh + length header) @ ''EOF''"
proof -
  obtain r1 wh1 where w1: "file_write header wh = (r1, wh1)" by force
  with assms have r1: "r1 = None"
    by (cases r1) (simp_all add: writing_phase_def)
  obtain r2 ks2 ms2 wh2 where w2: "write_keys bo fix keys wh1 = (r2, ks2, ms2, wh2)"
    by (cases "write_keys bo fix keys wh1") auto
  with assms w1 r1 have r2: "r2 = None"
    by (cases r2) (simp_all add: writing_phase_def)
  obtain r3 wh3 where w3: "file_write ''EOF'' wh2 = (r3, wh3)" by force
  from assms w1 r1 w2 r2 w3 have e: "r3 = None" "keys' = ks2" "wh' = wh3"
    by (simp_all add: writing_phase_def)
  from w1 r1 have h1: "written wh1 = written wh @ header"
    by (auto simp: file_write_def split: if_splits)
  then have t1: "out_tell wh1 = out_tell wh + length header"
    by (simp add: out_tell_def)
  note wk = write_keys_None[OF w2[unfolded r2]]
  from wk have k2: "ks2 = map (\<lambda>k. fst (fix_key fix k)) keys"
    and h2: "written wh2 = written wh1 @ encoded_keys bo ks2 (out_tell wh1)"
    by simp_all
  from w3 e(1) have h3: "written wh3 = written wh2 @ ''EOF''"
    by (auto simp: file_write_def split: if_splits)
  show "keys' = map (\<lambda>k. fst (fix_key fix k)) keys"
    by (simp add: e(2) k2)
  show "written wh' = written wh @ header
           @ encoded_keys bo keys' (out_tell wh + length header) @ ''EOF''"
    unfolding e(2,3) h3 h2 h1 t1 by simp
qed


lemma load_keys_encoded:
  assumes "data s = pre @ encoded_keys bo ks (length pre) @ tail"
    and "pos s = length pre"
    and "length tail < 40"
    and "list_all (\<lambda>k. in_range_Q (pod_size k)) ks"
    and "list_all (readable_key mem) ks"
  shows "load_keys mem bo s acc log =
           (None, acc @ ks,
            log @ map (\<lambda>k. Loaded_Key (key_id k) (key_type k) (user_text k)) ks,
            s\<lparr>pos := length (data s)\<rparr>)"
  using assms
proof (induction ks arbitrary: pre s acc log)
  case Nil
  then have "length (data s) - pos s < 40"
    by simp
  from Key_read_eof[OF this, of mem bo] Nil.prems(1,2)
  have "Key_read mem bo s = Inr (None, s\<lparr>pos := length (data s)\<rparr>)"
    by simp
  then show ?case
    by (subst load_keys.simps) simp
next
  case (Cons k ks)
  define e where "e = encoded bo k (length pre)"
  define s' where "s' = s\<lparr>pos := length pre + length e\<rparr>"
  have d: "data s = pre @ encoded bo k (length pre) @ (encoded_keys bo ks (length pre + length e) @ tail)"
    using Cons.prems(1) by (simp add: e_def)
  have r: "in_range_Q (pod_size k)"
    using Cons.prems(4) by simp
  have m: "readable_key mem k"
    using Cons.prems(5) by simp
  have kr: "Key_read mem bo s = Inr (Some k, s')"
    unfolding s'_def e_def by (rule Key_read_encoded[OF d Cons.prems(2) r m])
  have d': "data s' = (pre @ e) @ encoded_keys bo ks (length (pre @ e)) @ tail"
    using Cons.prems(1) by (simp add: s'_def e_def)
  have p': "pos s' = length (pre @ e)"
    by (simp add: s'_def)
  have r': "list_all (\<lambda>k. in_range_Q (pod_size k)) ks"
    using Cons.prems(4) by simp
  have m': "list_all (readable_key mem) ks"
    using Cons.prems(5) by simp
  note ih = Cons.IH[OF d' p' Cons.prems(3) r' m',
      of "acc @ [k]" "log @ [Loaded_Key (key_id k) (key_type k) (user_text k)]"]
  have "load_keys mem bo s acc log =
      load_keys mem bo s' (acc @ [k]) (log @ [Loaded_Key (key_id k) (key_type k) (user_text k)])"
    by (subst load_keys.simps) (simp add: kr)
  with ih show ?case
    by (simp add: s'_def)
qed


lemma file_write_ok:
  "length buf \<le> room wh \<Longrightarrow>
     file_write buf wh = (None, wh\<lparr>written := written wh @ buf, room := room wh - length buf\<rparr>)"
  by (simp add: file_write_def)

lemma writing_phase_ok:
  assumes "list_all (\<lambda>k. in_range_Q (pod_size k)) (map (\<lambda>k. fst (fix_key fix k)) keys)"
    and "length header
          + length (encoded_keys bo (map (\<lambda>k. fst (fix_key fix k)) keys)
                      (out_tell wh + length header)) + 3 \<le> room wh"
  shows "\<exists>msgs wh'. writing_phase bo fix header keys wh =
           (None, map (\<lambda>k. fst (fix_key fix k)) keys, msgs, wh')
         \<and> written wh' = written wh @ header
             @ encoded_keys bo (map (\<lambda>k. fst (fix_key fix k)) keys) (out_tell wh + length header)
             @ ''EOF''"
proof -
  define ks where "ks = map (\<lambda>k. fst (fix_key fix k)) keys"
  define wh1 where "wh1 = wh\<lparr>written := written wh @ header, room := room wh - length header\<rparr>"
  define e where "e = encoded_keys bo ks (out_tell wh + length header)"
  define wh2 where "wh2 = wh1\<lparr>written := written wh1 @ e, room := room wh1 - length e\<rparr>"
  define wh3 where "wh3 = wh2\<lparr>written := written wh2 @ ''EOF'', room := room wh2 - 3\<rparr>"
  have le: "length header + length e + 3 \<le> room wh"
    using assms(2) by (simp add: e_def ks_def)
  have w1: "file_write header wh = (None, wh1)"
    unfolding wh1_def using le by (intro file_write_ok) simp
  have t1: "out_tell wh1 = out_tell wh + length header"
    by (simp add: wh1_def out_tell_def)
  have "length (encoded_keys bo (map (\<lambda>k. fst (fix_key fix k)) keys) (out_tell wh1)) \<le> room wh1"
    using le unfolding t1 by (simp add: wh1_def e_def ks_def)
  from write_keys_ok[OF assms(1) this] obtain msgs where
    w2: "write_keys bo fix keys wh1 = (None, ks, msgs, wh2)"
    unfolding t1 by (simp add: ks_def e_def wh2_def)
  have w3: "file_write ''EOF'' wh2 = (None, wh3)"
    using le file_write_ok[of "''EOF''" wh2] by (simp add: wh3_def wh2_def wh1_def)
  have "writing_phase bo fix header keys wh = (None, ks, Wrote_new_keyring_header # msgs, wh3)"
    by (simp add: writing_phase_def w1 w2 w3)
  moreover have "written wh3 = written wh @ header @ e @ ''EOF''"
    by (simp add: wh3_def wh2_def wh1_def)
  ultimately show ?thesis
    unfolding ks_def e_def by blast
qed

lemma le_bytes_8:
  "le_bytes 8 n =
     [char_of (n mod 256), char_of (n div 256 mod 256), char_of (n div 256 div 256 mod 256),
      char_of (n div 256 div 256 div 256 mod 256),
      char_of (n div 256 div 256 div 256 div 256 mod 256),
      char_of (n div 256 div 256 div 256 div 256 div 256 mod 256),
      char_of (n div 256 div 256 div 256 div 256 div 256 div 256 mod 256),
      char_of (n div 256 div 256 div 256 div 256 div 256 div 256 div 256 mod 256)]"
proof -
  have e: "(8::nat) = Suc (Suc (Suc (Suc (Suc (Suc (Suc (Suc 0)))))))"
    by simp
  show ?thesis
    unfolding e le_bytes.simps ..
qed

lemma scenario_keyring_encoded:
  "scenario_keyring =
     ''Keyring file version:1.0'' @ encoded LittleEndian scenario_key 24 @ ''EOF''"
proof -
  have pad: "pack_x 3 = [CHR 0x00, CHR 0x00, CHR 0x00]"
    by (simp add: pack_x_def numeral_3_eq_3)
  have p: "padding_at (24 + pod_size scenario_key) = 3"
    by (simp add: scenario_key_def pod_size_eq padding_at_def)
  have h: "bytes_Q LittleEndian 61 =
        [CHR 0x3D, CHR 0x00, CHR 0x00, CHR 0x00, CHR 0x00, CHR 0x00, CHR 0x00, CHR 0x00]"
    "bytes_Q LittleEndian 14 =
        [CHR 0x0E, CHR 0x00, CHR 0x00, CHR 0x00, CHR 0x00, CHR 0x00, CHR 0x00, CHR 0x00]"
    "bytes_Q LittleEndian 3 =
        [CHR 0x03, CHR 0x00, CHR 0x00, CHR 0x00, CHR 0x00, CHR 0x00, CHR 0x00, CHR 0x00]"
    "bytes_Q LittleEndian 0 =
        [CHR 0x00, CHR 0x00, CHR 0x00, CHR 0x00, CHR 0x00, CHR 0x00, CHR 0x00, CHR 0x00]"
    "bytes_Q LittleEndian 4 =
        [CHR 0x04, CHR 0x00, CHR 0x00, CHR 0x00, CHR 0x00, CHR 0x00, CHR 0x00, CHR 0x00]"
    by (simp_all add: bytes_Q_def native_def calcsize_Q_def le_bytes_8 char_of_eq_iff
        take_bit_eq_mod)
  have k: "key_bytes LittleEndian scenario_key =
      bytes_Q LittleEndian 61 @ bytes_Q LittleEndian 14 @ bytes_Q LittleEndian 3
        @ bytes_Q LittleEndian 0 @ bytes_Q LittleEndian 4
        @ ''percona_binlog'' @ ''AES'' @ [] @ [CHR 0x01, CHR 0x02, CHR 0x03, CHR 0x04]"
    by (simp add: key_bytes_def scenario_key_def pod_size_eq numeral_2_eq_2[symmetric])
  show ?thesis
    unfolding scenario_keyring_def encoded_def p pad k h by simp
qed

lemma Suc_24: "Suc (Suc (Suc (Suc (Suc (Suc (Suc (Suc (Suc (Suc (Suc (Suc (Suc (Suc (Suc (Suc (Suc (Suc (Suc (Suc (Suc (Suc (Suc (Suc 0))))))))))))))))))))))) = 24"
  by simp

lemma scenario_header:
  "read_keyring_header mem \<lparr>data = scenario_keyring, pos = 0\<rparr>
   = Some (Inr (''Keyring file version:1.0'', [Keyring_file_version ''1.0''],
                \<lparr>data = scenario_keyring, pos = 24\<rparr>))"
proof -
  define s where "s = \<lparr>data = scenario_keyring, pos = 0\<rparr>"
  have d: "data s = [] @ scenario_keyring" and p: "pos s = length ([] :: bytes)"
    by (simp_all add: s_def)
  have c: "CHR '':'' \<in> set scenario_keyring"
    by (simp add: scenario_keyring_encoded)
  have b: "([] :: bytes) \<noteq> '':''"
    by simp
  have "header_loop mem [] [] s = Some (Inr (''Keyring file version:'', s\<lparr>pos := 21\<rparr>))"
    using header_loop_colon[OF d p c b, of mem "[]"] by (simp add: scenario_keyring_encoded)
  then show ?thesis
    unfolding s_def[symmetric]
    by (simp add: read_keyring_header_def and_then_def file_read_eq)
       (simp add: s_def scenario_keyring_encoded)
qed

lemma scenario_keys:
  "load_keys mem LittleEndian \<lparr>data = scenario_keyring, pos = 24\<rparr> [] []
   = (None, [scenario_key],
      [Loaded_Key ''percona_binlog'' ''AES'' ''SYSTEM''],
      \<lparr>data = scenario_keyring, pos = length scenario_keyring\<rparr>)"
proof -
  define s where "s = \<lparr>data = scenario_keyring, pos = 24\<rparr>"
  have l: "length ''Keyring file version:1.0'' = 24"
    by simp
  have d: "data s = ''Keyring file version:1.0''
      @ encoded_keys LittleEndian [scenario_key] (length ''Keyring file version:1.0'') @ ''EOF''"
    unfolding l by (simp add: s_def scenario_keyring_encoded)
  have p: "pos s = length ''Keyring file version:1.0''"
    by (simp add: s_def)
  have t: "length ''EOF'' < 40"
    by simp
  have r: "list_all (\<lambda>k. in_range_Q (pod_size k)) [scenario_key]"
    by (simp add: scenario_key_def in_range_Q_def pod_size_eq)
  have m: "list_all (readable_key mem) [scenario_key]"
    by (simp add: scenario_key_def readable_key_def readable_small)
  from load_keys_encoded[OF d p t r m, of "[]" "[]"] show ?thesis
    by (simp add: s_def scenario_key_def user_text_def)
qed

lemma scenario_run:
  "\<exists>log. main mem LittleEndian 1000 scenario_options [''keyring'' \<mapsto> scenario_keyring]
     = Some (None, log,
             [''keyring'' \<mapsto> scenario_keyring,
              ''keyring.new'' \<mapsto>
                ''Keyring file version:1.0''
                @ encoded LittleEndian (scenario_key\<lparr>key_id := ''percona_binlog:0''\<rparr>) 24
                @ ''EOF''])"
proof -
  define k' where "k' = scenario_key\<lparr>key_id := ''percona_binlog:0''\<rparr>"
  have fk: "map (\<lambda>k. fst (fix_key True k)) [scenario_key] = [k']"
    by (simp add: fix_key_def scenario_key_def k'_def)
  have rng: "list_all (\<lambda>k. in_range_Q (pod_size k)) (map (\<lambda>k. fst (fix_key True k)) [scenario_key])"
    unfolding fk by (simp add: k'_def scenario_key_def in_range_Q_def pod_size_eq)
  have fits: "length ''Keyring file version:1.0''
          + length (encoded_keys LittleEndian (map (\<lambda>k. fst (fix_key True k)) [scenario_key])
                      (out_tell \<lparr>written = [], room = 1000\<rparr> + length ''Keyring file version:1.0''))
          + 3 \<le> room \<lparr>written = [], room = 1000\<rparr>"
    unfolding fk
    by (simp add: k'_def scenario_key_def length_encoded pod_size_eq padding_at_def out_tell_def)
  from writing_phase_ok[OF rng fits] obtain msgs wh' where
    wp: "writing_phase LittleEndian True ''Keyring file version:1.0'' [scenario_key]
           \<lparr>written = [], room = 1000\<rparr> = (None, [k'], msgs, wh')"
    and wr: "written wh' = ''Keyring file version:1.0'' @ encoded LittleEndian k' 24 @ ''EOF''"
    unfolding fk by (auto simp: out_tell_def Suc_24)
  have "main mem LittleEndian 1000 scenario_options [''keyring'' \<mapsto> scenario_keyring]
      = Some (None, [Keyring_file_version ''1.0'']
                @ [Loaded_Key ''percona_binlog'' ''AES'' ''SYSTEM''] @ msgs,
              [''keyring'' \<mapsto> scenario_keyring](''keyring.new'' \<mapsto> written wh'))"
    using main_run [of "[''keyring'' \<mapsto> scenario_keyring]" scenario_options scenario_keyring
        mem LittleEndian 1000]
    by (simp add: scenario_options_def scenario_header scenario_keys wp)
  then show ?thesis
    unfolding wr k'_def by blast
qed

subsection \<open>What a failed write leaves behind\<close>









subsection \<open>C8: the sentinel\<close>

text \<open>
  Claim C8. In every run of \<open>main\<close> that ends without an exception, the output file is the
  header as it was read, then the keys as the writing loop leaves them, each with its padding,
  then the three bytes \<open>EOF\<close>, and nothing else: the sentinel is written once, by the last
  statement of \<open>main\<close>; it is the last three bytes of the file, and it starts right after the
  padding of the last key, at a multiple of 8 (right after the header when there is no key).
  The bytes \<open>EOF\<close> may of course also occur inside the header or inside a field, which are
  arbitrary bytes; those are not the sentinel.
\<close>

theorem sentinel_ends_output:
  assumes "main mem bo space opts fs = Some (None, log, fs')"
  shows "\<exists>contents header log1 rh1 keys log2 rh2.
           fs (infile opts) = Some contents
         \<and> read_keyring_header mem \<lparr>data = contents, pos = 0\<rparr> = Some (Inr (header, log1, rh1))
         \<and> load_keys mem bo rh1 [] [] = (None, keys, log2, rh2)
         \<and> fs' = fs(outfile opts \<mapsto>
                    header
                    @ encoded_keys bo (map (\<lambda>k. fst (fix_key (fix_opt opts) k)) keys)
                        (length header)
                    @ ''EOF'')
         \<and> (keys \<noteq> [] \<longrightarrow>
               (length header
                + length (encoded_keys bo (map (\<lambda>k. fst (fix_key (fix_opt opts) k)) keys)
                            (length header))) mod 8 = 0)"
proof -
  have chk: "\<not> (infile opts \<notin> dom fs \<or> outfile opts \<in> dom fs)"
  proof
    assume "infile opts \<notin> dom fs \<or> outfile opts \<in> dom fs"
    from main_checks[OF this, of mem bo space] assms show False by auto
  qed
  then obtain contents where c: "fs (infile opts) = Some contents" and o: "outfile opts \<notin> dom fs"
    by auto
  note mr = main_run[OF c o, of mem bo space]
  from assms mr obtain y where
    y: "read_keyring_header mem \<lparr>data = contents, pos = 0\<rparr> = Some y"
    by (cases "read_keyring_header mem \<lparr>data = contents, pos = 0\<rparr>") auto
  from read_keyring_header_Inr[OF y] y obtain header log1 rh1 where
    rk: "read_keyring_header mem \<lparr>data = contents, pos = 0\<rparr> = Some (Inr (header, log1, rh1))"
    by auto
  obtain r2 keys log2 rh2 where lk0: "load_keys mem bo rh1 [] [] = (r2, keys, log2, rh2)"
    by (cases "load_keys mem bo rh1 [] []") auto
  from assms mr rk lk0 have "r2 = None"
    by (cases r2) simp_all
  with lk0 have lk: "load_keys mem bo rh1 [] [] = (None, keys, log2, rh2)"
    by simp
  obtain r keys' log3 wh' where
    wp: "writing_phase bo (fix_opt opts) header keys \<lparr>written = [], room = space\<rparr>
           = (r, keys', log3, wh')"
    by (cases "writing_phase bo (fix_opt opts) header keys \<lparr>written = [], room = space\<rparr>") auto
  from assms mr rk lk wp have r: "r = None" and f: "fs' = fs(outfile opts \<mapsto> written wh')"
    by simp_all
  note wn = writing_phase_None[OF wp[unfolded r]]
  have w: "written wh' = header
      @ encoded_keys bo (map (\<lambda>k. fst (fix_key (fix_opt opts) k)) keys) (length header) @ ''EOF''"
    using wn by (simp add: out_tell_def)
  have al: "keys \<noteq> [] \<longrightarrow>
               (length header
                + length (encoded_keys bo (map (\<lambda>k. fst (fix_key (fix_opt opts) k)) keys)
                            (length header))) mod 8 = 0"
    using encoded_keys_aligned[of "map (\<lambda>k. fst (fix_key (fix_opt opts) k)) keys" "length header" bo]
    by simp
  from c rk lk f[unfolded w] al show ?thesis
    by - (rule exI[of _ contents], rule exI[of _ header], rule exI[of _ log1],
        rule exI[of _ rh1], rule exI[of _ keys], rule exI[of _ log2], rule exI[of _ rh2],
        intro conjI, assumption+)
qed

theorem sentinel_ends_output_witness:
  "\<exists>log fs'. main 0 LittleEndian 1000 scenario_options [''keyring'' \<mapsto> scenario_keyring]
               = Some (None, log, fs')
     \<and> fs' ''keyring.new'' =
         Some (''Keyring file version:1.0''
               @ encoded LittleEndian (scenario_key\<lparr>key_id := ''percona_binlog:0''\<rparr>) 24
               @ ''EOF'')"
proof -
  from scenario_run[of 0] obtain log fs' where
    h: "main 0 LittleEndian 1000 scenario_options [''keyring'' \<mapsto> scenario_keyring]
          = Some (None, log, fs')"
    by blast
  from sentinel_ends_output [OF h] obtain contents header log1 rh1 keys log2 rh2 where
    c: "[''keyring'' \<mapsto> scenario_keyring] (infile scenario_options) = Some contents"
    and rk: "read_keyring_header 0 \<lparr>data = contents, pos = 0\<rparr> = Some (Inr (header, log1, rh1))"
    and lk: "load_keys 0 LittleEndian rh1 [] [] = (None, keys, log2, rh2)"
    and f: "fs' = [''keyring'' \<mapsto> scenario_keyring](outfile scenario_options \<mapsto>
                    header
                    @ encoded_keys LittleEndian
                        (map (\<lambda>k. fst (fix_key (fix_opt scenario_options) k)) keys)
                        (length header)
                    @ ''EOF'')"
    by blast
  from c have c': "contents = scenario_keyring"
    by (simp add: scenario_options_def)
  from rk have hd: "header = ''Keyring file version:1.0''"
    and rh: "rh1 = \<lparr>data = scenario_keyring, pos = 24\<rparr>"
    by (simp_all add: c' scenario_header)
  from lk have ks: "keys = [scenario_key]"
    by (simp add: rh scenario_keys)
  have "fs' ''keyring.new'' =
         Some (''Keyring file version:1.0''
               @ encoded LittleEndian (scenario_key\<lparr>key_id := ''percona_binlog:0''\<rparr>) 24
               @ ''EOF'')"
    unfolding f hd ks by (simp add: scenario_options_def fix_key_def scenario_key_def Suc_24)
  with h show ?thesis
    by blast
qed


subsection \<open>C9: what a failed run leaves behind\<close>




lemma padding_at_mod: "a mod 8 = b mod 8 \<Longrightarrow> padding_at a = padding_at b"
  by (simp add: padding_at_def)

lemma take_pod_encoded: "take (pod_size k) (encoded bo k off) = key_bytes bo k"
  by (simp add: encoded_def length_key_bytes)

lemma take_8_encoded: "take 8 (encoded bo k off) = bytes_Q bo (pod_size k)"
  by (simp add: encoded_def key_bytes_def length_bytes_Q)

lemma stale_keyring_read:
  "unpack_Q LittleEndian (take 8 (drop 24 stale_keyring)) = 999"
  "\<exists>s'. Key_read 0 LittleEndian \<lparr>data = stale_keyring, pos = 24\<rparr>
          = Inr (Some \<lparr>key_id = ''abc'', key_type = [], user_id = [], key = []\<rparr>, s')"
proof -
  define s where "s = \<lparr>data = stale_keyring, pos = 24\<rparr>"
  have h: "take 40 (drop (pos s) (data s)) = stale_header"
    by (simp add: s_def stale_keyring_def stale_header_def)
  have l: "40 \<le> length (data s) - pos s"
    by (simp add: s_def stale_keyring_def stale_header_def)
  have u: "unpack_QQQQQ LittleEndian (take 40 (drop (pos s) (data s))) = Some (999, 3, 0, 0, 0)"
    unfolding h
    by (simp add: stale_header_def unpack_QQQQQ_def unpack_Q_def native_def calcsize_QQQQQ_def)
  show "unpack_Q LittleEndian (take 8 (drop 24 stale_keyring)) = 999"
    by (simp add: stale_keyring_def stale_header_def unpack_Q_def native_def)
  have m: "readable 0 3" "readable 0 0"
    by (simp_all add: readable_def)
  from Key_read_header[OF l u m(1) m(2) m(2) m(2)]
  obtain k s' where kr: "Key_read 0 LittleEndian s = Inr (Some k, s')"
    and e1: "key_id k = take 3 (drop (pos s + 40) (data s))"
    and e2: "key_type k = take 0 (drop (pos s + 40 + length (key_id k)) (data s))"
    and e3: "user_id k = take 0 (drop (pos s + 40 + length (key_id k) + length (key_type k)) (data s))"
    and e4: "key k = take 0 (drop (pos s + 40 + length (key_id k) + length (key_type k)
                                  + length (user_id k)) (data s))"
    by blast
  have "key_id k = ''abc''"
    unfolding e1 by (simp add: s_def stale_keyring_def stale_header_def)
  moreover have "key_type k = []" "user_id k = []" "key k = []"
    by (simp_all add: e2 e3 e4)
  ultimately have "k = \<lparr>key_id = ''abc'', key_type = [], user_id = [], key = []\<rparr>"
    by simp
  with kr show "\<exists>s'. Key_read 0 LittleEndian \<lparr>data = stale_keyring, pos = 24\<rparr>
          = Inr (Some \<lparr>key_id = ''abc'', key_type = [], user_id = [], key = []\<rparr>, s')"
    unfolding s_def by blast
qed

subsection \<open>C3: the total size is computed when the key is written\<close>

text \<open>
  Claim C3. Whenever \<open>Key.write\<close> succeeds, the first eight bytes it writes are the number
  \<open>5 * 8\<close> plus the lengths of \<open>key_id\<close>, \<open>key_type\<close>, \<open>user_id\<close> and \<open>key\<close> as they are
  at that moment. A key object has no other attribute, so a total size read from a source
  cannot reach the output (\<open>Key.read\<close> drops it). Consequently any other write of a key with
  the same four field values produces the same bytes: the same size and field bytes wherever
  the two writes start, and the same bytes altogether, padding included, when they start at
  offsets that are equal modulo 8, the padding being computed from the absolute offset (C4).
  The write succeeds only for a size below \<open>2 ^ 64\<close>, which every key of a real run has.
\<close>

theorem total_size_recomputed:
  assumes "Key_write bo k wh = (None, wh')"
  shows "unpack_Q bo (take 8 (drop (out_tell wh) (written wh')))
           = 5 * 8 + length (key_id k) + length (key_type k) + length (user_id k)
               + length (key k)
       \<and> (\<forall>k2 wh2 wh2'.
             key_id k2 = key_id k \<and> key_type k2 = key_type k \<and> user_id k2 = user_id k
               \<and> key k2 = key k \<and> Key_write bo k2 wh2 = (None, wh2')
             \<longrightarrow> take (pod_size k) (drop (out_tell wh2) (written wh2'))
                   = take (pod_size k) (drop (out_tell wh) (written wh'))
               \<and> (out_tell wh2 mod 8 = out_tell wh mod 8
                    \<longrightarrow> drop (out_tell wh2) (written wh2')
                          = drop (out_tell wh) (written wh')))"
proof -
  note kw = Key_write_None[OF assms]
  have d: "drop (out_tell wh) (written wh') = encoded bo k (out_tell wh)"
    using kw(3) by (simp add: out_tell_def)
  have 1: "unpack_Q bo (take 8 (drop (out_tell wh) (written wh')))
           = 5 * 8 + length (key_id k) + length (key_type k) + length (user_id k)
               + length (key k)"
    unfolding d take_8_encoded unpack_bytes_Q[OF kw(1)] by (simp add: pod_size_eq)
  have 2: "take (pod_size k) (drop (out_tell wh2) (written wh2'))
                   = take (pod_size k) (drop (out_tell wh) (written wh'))
               \<and> (out_tell wh2 mod 8 = out_tell wh mod 8
                    \<longrightarrow> drop (out_tell wh2) (written wh2')
                          = drop (out_tell wh) (written wh'))"
    if f: "key_id k2 = key_id k" "key_type k2 = key_type k" "user_id k2 = user_id k"
      "key k2 = key k" and w: "Key_write bo k2 wh2 = (None, wh2')" for k2 wh2 wh2'
  proof -
    from f have k2: "k2 = k"
      by simp
    have d2: "drop (out_tell wh2) (written wh2') = encoded bo k (out_tell wh2)"
      using Key_write_None(3)[OF w] by (simp add: out_tell_def k2)
    have a: "take (pod_size k) (drop (out_tell wh2) (written wh2'))
                   = take (pod_size k) (drop (out_tell wh) (written wh'))"
      unfolding d d2 take_pod_encoded ..
    have b: "drop (out_tell wh2) (written wh2') = drop (out_tell wh) (written wh')"
      if m: "out_tell wh2 mod 8 = out_tell wh mod 8"
    proof -
      from m have "(out_tell wh2 + pod_size k) mod 8 = (out_tell wh + pod_size k) mod 8"
        by (rule mod_add_cong) simp
      then have "padding_at (out_tell wh2 + pod_size k) = padding_at (out_tell wh + pod_size k)"
        by (rule padding_at_mod)
      then show ?thesis
        unfolding d d2 by (simp add: encoded_def)
    qed
    from a b show ?thesis
      by blast
  qed
  from 1 2 show ?thesis
    by blast
qed

theorem total_size_recomputed_witness:
  "unpack_Q LittleEndian (take 8 (drop 24 stale_keyring)) = 999
   \<and> (\<exists>s'. Key_read 0 LittleEndian \<lparr>data = stale_keyring, pos = 24\<rparr>
              = Inr (Some \<lparr>key_id = ''abc'', key_type = [], user_id = [], key = []\<rparr>, s'))
   \<and> (\<exists>wh'. Key_write LittleEndian \<lparr>key_id = ''abc'', key_type = [], user_id = [], key = []\<rparr> \<lparr>written = ''Keyring file version:1.0'', room = 100\<rparr> = (None, wh')
         \<and> unpack_Q LittleEndian (take 8 (drop (out_tell \<lparr>written = ''Keyring file version:1.0'', room = 100\<rparr>) (written wh'))) = 43)"
proof -
  have r: "in_range_Q (pod_size \<lparr>key_id = ''abc'', key_type = [], user_id = [], key = []\<rparr>)"
    by (simp add: in_range_Q_def pod_size_eq)
  have f: "length (encoded LittleEndian \<lparr>key_id = ''abc'', key_type = [], user_id = [], key = []\<rparr> (out_tell \<lparr>written = ''Keyring file version:1.0'', room = 100\<rparr>)) \<le> room \<lparr>written = ''Keyring file version:1.0'', room = 100\<rparr>"
    by (simp add: length_encoded pod_size_eq padding_at_def out_tell_def)
  note h = Key_write_ok[OF r f]
  from total_size_recomputed [OF h]
  have "unpack_Q LittleEndian (take 8 (drop (out_tell \<lparr>written = ''Keyring file version:1.0'', room = 100\<rparr>)
          (written (\<lparr>written = ''Keyring file version:1.0'', room = 100\<rparr>\<lparr>written := written \<lparr>written = ''Keyring file version:1.0'', room = 100\<rparr> @ encoded LittleEndian \<lparr>key_id = ''abc'', key_type = [], user_id = [], key = []\<rparr> (out_tell \<lparr>written = ''Keyring file version:1.0'', room = 100\<rparr>),
                       room := room \<lparr>written = ''Keyring file version:1.0'', room = 100\<rparr> - length (encoded LittleEndian \<lparr>key_id = ''abc'', key_type = [], user_id = [], key = []\<rparr> (out_tell \<lparr>written = ''Keyring file version:1.0'', room = 100\<rparr>))\<rparr>))))
        = 43"
    by simp
  with h stale_keyring_read show ?thesis
    by blast
qed

end
